theory Spec2Isabelle
  imports Main "HOL-Library.Multiset"
begin

section \<open>SliceArray: a chunked, append-only array (software/librender/SliceArray.h)\<close>

text \<open>
  The class template \<open>SliceArray<T, BUCKET_SIZE>\<close> is embedded over an explicit store:
  buckets live in a heap (a map from addresses to bucket records) and the container
  holds addresses, as the C++ object holds \<open>Bucket*\<close>. The template parameter
  \<open>BUCKET_SIZE\<close> is the argument \<open>B\<close> of every operation, the element type \<open>T\<close> is
  the type variable \<open>'a\<close>, and \<open>T\<close>'s \<open>operator>\<close> is the argument \<open>gt\<close>.

  A result is \<open>(fault + 'x) option\<close>: \<open>None\<close> is a loop that never returns,
  \<open>Some (Inl f)\<close> is undefined behaviour in the C++ (a null or dangling pointer
  dereferenced, an index outside \<open>items\<close>), \<open>Some (Inr x)\<close> is a normal return.
  All indices on the paths below stay within \<open>-1 .. BUCKET_SIZE\<close>, so the C++ \<open>int\<close>
  is modelled by \<open>int\<close> without wrap-around.
\<close>

subsection \<open>Data model\<close>

type_synonym addr = nat

datatype fault = NullDereference | InvalidPointer | IndexOutOfRange

text \<open>
  \<open>struct Bucket { Bucket *next = nullptr; Bucket *prev = nullptr; T items[BUCKET_SIZE]; }\<close>.
  The field \<open>destroyed\<close> is not in the C++: it records that \<open>~Bucket()\<close> has run on
  the bucket, which ends the lifetime of its items but leaves its memory in place.
\<close>

record 'a Bucket =
  bnext :: "addr option"
  bprev :: "addr option"
  items :: "'a list"
  destroyed :: bool

type_synonym 'a heap = "addr \<Rightarrow> 'a Bucket option"

text \<open>
  Modelled from the spec: \<open>SliceAllocator.h\<close> is not part of the sources. The spec
  requires of the allocator only an operation that returns storage for one chunk and
  runs the chunk's constructor. It is modelled as a bump allocator: its state is the
  next unused address.
\<close>

type_synonym SliceAllocator = addr

record 'a SliceArray =
  fFirstBucket :: "addr option"
  fLastBucket :: "addr option"
  fNextBucketIndex :: int
  fAllocator :: "SliceAllocator option"
  fLock :: int
  heap :: "'a heap"

text \<open>The state after \<open>SliceArray()\<close>, in a store that holds no bucket yet.\<close>

definition SliceArray_init :: "'a SliceArray" where
  "SliceArray_init =
     \<lparr>fFirstBucket = None, fLastBucket = None, fNextBucketIndex = 0,
      fAllocator = None, fLock = 0, heap = Map.empty\<rparr>"

definition setAllocator :: "SliceAllocator \<Rightarrow> 'a SliceArray \<Rightarrow> 'a SliceArray" where
  "setAllocator allocator s = s\<lparr>fAllocator := Some allocator\<rparr>"

text \<open>
  \<open>new (*fAllocator) Bucket\<close>: dereferences \<open>fAllocator\<close>, takes the allocator's next
  address and constructs a bucket there. \<open>d\<close> is the value of a default-constructed
  \<open>T\<close>.
\<close>

definition newBucket :: "int \<Rightarrow> 'a \<Rightarrow> 'a SliceArray \<Rightarrow> fault + (addr \<times> 'a SliceArray)" where
  "newBucket B d s =
     (case fAllocator s of
        None \<Rightarrow> Inl NullDereference
      | Some a \<Rightarrow>
          Inr (a, s\<lparr>fAllocator := Some (Suc a),
                    heap := (heap s)(a \<mapsto>
                      \<lparr>bnext = None, bprev = None, items = replicate (nat B) d,
                       destroyed = False\<rparr>)\<rparr>))"

subsection \<open>Iterator\<close>

datatype iterator = iterator (fBucket: "addr option") (fIndex: int)

definition begin_iter :: "'a SliceArray \<Rightarrow> iterator" where
  "begin_iter s = iterator (fFirstBucket s) 0"

definition end_iter :: "'a SliceArray \<Rightarrow> iterator" where
  "end_iter s = iterator (fLastBucket s) (fNextBucketIndex s)"

text \<open>\<open>fBucket->\<close>: the bucket a pointer refers to.\<close>

definition bucket_at :: "'a heap \<Rightarrow> addr option \<Rightarrow> fault + 'a Bucket" where
  "bucket_at h p =
     (case p of
        None \<Rightarrow> Inl NullDereference
      | Some a \<Rightarrow> (case h a of None \<Rightarrow> Inl InvalidPointer | Some b \<Rightarrow> Inr b))"

text \<open>
  \<open>operator++\<close>: \<open>if (++fIndex == BUCKET_SIZE && fBucket->next) { fBucket = fBucket->next;
  fIndex = 0; }\<close>. The conjunction short-circuits: the bucket is read only when the
  incremented index equals \<open>BUCKET_SIZE\<close>.
\<close>

definition iter_inc :: "int \<Rightarrow> 'a heap \<Rightarrow> iterator \<Rightarrow> fault + iterator" where
  "iter_inc B h it =
     (let i = fIndex it + 1 in
      if i = B then
        (case bucket_at h (fBucket it) of
           Inl e \<Rightarrow> Inl e
         | Inr b \<Rightarrow>
             (case bnext b of
                Some n \<Rightarrow> Inr (iterator (Some n) 0)
              | None \<Rightarrow> Inr (iterator (fBucket it) i)))
      else Inr (iterator (fBucket it) i))"

text \<open>\<open>operator--\<close>: \<open>if (--fIndex < 0) { fBucket = fBucket->prev; fIndex = BUCKET_SIZE - 1; }\<close>.\<close>

definition iter_dec :: "int \<Rightarrow> 'a heap \<Rightarrow> iterator \<Rightarrow> fault + iterator" where
  "iter_dec B h it =
     (let i = fIndex it - 1 in
      if i < 0 then
        (case bucket_at h (fBucket it) of
           Inl e \<Rightarrow> Inl e
         | Inr b \<Rightarrow> Inr (iterator (bprev b) (B - 1)))
      else Inr (iterator (fBucket it) i))"

text \<open>\<open>next()\<close> and \<open>prev()\<close> copy the iterator and step the copy.\<close>

definition iter_next :: "int \<Rightarrow> 'a heap \<Rightarrow> iterator \<Rightarrow> fault + iterator" where
  "iter_next B h it = iter_inc B h it"

definition iter_prev :: "int \<Rightarrow> 'a heap \<Rightarrow> iterator \<Rightarrow> fault + iterator" where
  "iter_prev B h it = iter_dec B h it"

text \<open>
  \<open>bucket->items[index]\<close>, read and written. \<open>items\<close> has \<open>BUCKET_SIZE\<close> cells; an
  index outside \<open>0 ..< BUCKET_SIZE\<close> is a fault.
\<close>

definition load_item :: "int \<Rightarrow> 'a heap \<Rightarrow> addr option \<Rightarrow> int \<Rightarrow> fault + 'a" where
  "load_item B h p i =
     (case bucket_at h p of
        Inl e \<Rightarrow> Inl e
      | Inr b \<Rightarrow> if 0 \<le> i \<and> i < B then Inr (items b ! nat i) else Inl IndexOutOfRange)"

definition store_item :: "int \<Rightarrow> 'a heap \<Rightarrow> addr option \<Rightarrow> int \<Rightarrow> 'a \<Rightarrow> fault + 'a heap" where
  "store_item B h p i v =
     (case p of
        None \<Rightarrow> Inl NullDereference
      | Some a \<Rightarrow>
          (case h a of
             None \<Rightarrow> Inl InvalidPointer
           | Some b \<Rightarrow>
               if 0 \<le> i \<and> i < B then Inr (h(a \<mapsto> b\<lparr>items := (items b)[nat i := v]\<rparr>))
               else Inl IndexOutOfRange))"

text \<open>\<open>operator*\<close> yields \<open>fBucket->items[fIndex]\<close>, as a value and as an assignment target.\<close>

definition iter_get :: "int \<Rightarrow> 'a heap \<Rightarrow> iterator \<Rightarrow> fault + 'a" where
  "iter_get B h it = load_item B h (fBucket it) (fIndex it)"

definition iter_set :: "int \<Rightarrow> 'a heap \<Rightarrow> iterator \<Rightarrow> 'a \<Rightarrow> fault + 'a heap" where
  "iter_set B h it v = store_item B h (fBucket it) (fIndex it) v"

subsection \<open>Growth: allocateBucket\<close>

text \<open>
  The lock: \<open>do { while (fLock) ; } while (!__sync_bool_compare_and_swap(&fLock, 0, 1))\<close>.
  With no other thread running nobody clears a lock that is held, and the loop spins.
\<close>

partial_function (option) acquire_lock :: "'a SliceArray \<Rightarrow> 'a SliceArray option" where
  "acquire_lock s =
     (if fLock s \<noteq> 0 then acquire_lock s
      else if fLock s = 0 then Some (s\<lparr>fLock := 1\<rparr>)
      else acquire_lock s)"

text \<open>
  The body of \<open>allocateBucket\<close> between taking and releasing the lock, in two parts,
  in the order of the source. First \<open>link_bucket\<close>: the new bucket is allocated, linked
  after \<open>fLastBucket\<close> (or made the first bucket) and published as \<open>fLastBucket\<close>. Then
  \<open>fNextBucketIndex = 0\<close>, the last store before the lock is released.
\<close>

definition link_bucket :: "int \<Rightarrow> 'a \<Rightarrow> 'a SliceArray \<Rightarrow> fault + 'a SliceArray" where
  "link_bucket B d s =
     (case fLastBucket s of
        Some l \<Rightarrow>
          (case newBucket B d s of
             Inl e \<Rightarrow> Inl e
           | Inr (nb, s1) \<Rightarrow>
               (case heap s1 nb of
                  None \<Rightarrow> Inl InvalidPointer
                | Some b \<Rightarrow>
                    (let h2 = (heap s1)(nb \<mapsto> b\<lparr>bprev := Some l\<rparr>) in
                     case h2 l of
                       None \<Rightarrow> Inl InvalidPointer
                     | Some lb \<Rightarrow>
                         Inr (s1\<lparr>heap := h2(l \<mapsto> lb\<lparr>bnext := Some nb\<rparr>),
                                 fLastBucket := Some nb\<rparr>))))
      | None \<Rightarrow>
          (case newBucket B d s of
             Inl e \<Rightarrow> Inl e
           | Inr (nb, s1) \<Rightarrow> Inr (s1\<lparr>fFirstBucket := Some nb, fLastBucket := Some nb\<rparr>)))"

definition grow :: "int \<Rightarrow> 'a \<Rightarrow> 'a SliceArray \<Rightarrow> fault + 'a SliceArray" where
  "grow B d s =
     (if fNextBucketIndex s = B \<or> fLastBucket s = None then
        (case link_bucket B d s of
           Inl e \<Rightarrow> Inl e
         | Inr s1 \<Rightarrow> Inr (s1\<lparr>fNextBucketIndex := 0\<rparr>))
      else Inr s)"

definition allocateBucket :: "int \<Rightarrow> 'a \<Rightarrow> 'a SliceArray \<Rightarrow> (fault + 'a SliceArray) option" where
  "allocateBucket B d s =
     (case acquire_lock s of
        None \<Rightarrow> None
      | Some s1 \<Rightarrow>
          (case grow B d s1 of
             Inl e \<Rightarrow> Some (Inl e)
           | Inr s2 \<Rightarrow> Some (Inr (s2\<lparr>fLock := 0\<rparr>))))"

subsection \<open>append\<close>

text \<open>
  The pieces of one pass through the loop of \<open>append\<close>: the two reads at its head, the
  test that sends the thread to \<open>allocateBucket\<close>, the compare-and-swap on
  \<open>fNextBucketIndex\<close>, and the store after the loop.
\<close>

definition must_grow :: "int \<Rightarrow> int \<Rightarrow> addr option \<Rightarrow> bool" where
  "must_grow B index bucket = (index = B \<or> bucket = None)"

definition cas_index :: "int \<Rightarrow> 'a SliceArray \<Rightarrow> bool \<times> 'a SliceArray" where
  "cas_index index s =
     (if fNextBucketIndex s = index then (True, s\<lparr>fNextBucketIndex := index + 1\<rparr>)
      else (False, s))"

definition store_slot ::
  "int \<Rightarrow> addr option \<Rightarrow> int \<Rightarrow> 'a \<Rightarrow> 'a SliceArray \<Rightarrow> fault + 'a SliceArray" where
  "store_slot B bucket index copyFrom s =
     (case store_item B (heap s) bucket index copyFrom of
        Inl e \<Rightarrow> Inl e
      | Inr h \<Rightarrow> Inr (s\<lparr>heap := h\<rparr>))"

text \<open>\<open>append\<close> run by one thread with no other thread active.\<close>

partial_function (option) append ::
  "int \<Rightarrow> 'a \<Rightarrow> 'a \<Rightarrow> 'a SliceArray \<Rightarrow> (fault + 'a SliceArray) option" where
  "append B d copyFrom s =
     (let index = fNextBucketIndex s; bucket = fLastBucket s in
      if must_grow B index bucket then
        (case allocateBucket B d s of
           None \<Rightarrow> None
         | Some (Inl e) \<Rightarrow> Some (Inl e)
         | Some (Inr s1) \<Rightarrow> append B d copyFrom s1)
      else
        (case cas_index index s of
           (swapped, s1) \<Rightarrow>
             if swapped then Some (store_slot B bucket index copyFrom s1)
             else append B d copyFrom s1))"

text \<open>A sequence of calls of \<open>append\<close>, one after the other.\<close>

fun appends ::
  "int \<Rightarrow> 'a \<Rightarrow> 'a list \<Rightarrow> 'a SliceArray \<Rightarrow> (fault + 'a SliceArray) option" where
  "appends B d [] s = Some (Inr s)"
| "appends B d (v # vs) s =
     (case append B d v s of
        None \<Rightarrow> None
      | Some (Inl e) \<Rightarrow> Some (Inl e)
      | Some (Inr s1) \<Rightarrow> appends B d vs s1)"

subsection \<open>reset\<close>

text \<open>\<open>for (Bucket *bucket = fFirstBucket; bucket; bucket = bucket->next) bucket->~Bucket();\<close>\<close>

partial_function (option) destroy_buckets ::
  "'a heap \<Rightarrow> addr option \<Rightarrow> (fault + 'a heap) option" where
  "destroy_buckets h bucket =
     (case bucket of
        None \<Rightarrow> Some (Inr h)
      | Some a \<Rightarrow>
          (case h a of
             None \<Rightarrow> Some (Inl InvalidPointer)
           | Some b \<Rightarrow> destroy_buckets (h(a \<mapsto> b\<lparr>destroyed := True\<rparr>)) (bnext b)))"

definition reset :: "'a SliceArray \<Rightarrow> (fault + 'a SliceArray) option" where
  "reset s =
     (case destroy_buckets (heap s) (fFirstBucket s) of
        None \<Rightarrow> None
      | Some (Inl e) \<Rightarrow> Some (Inl e)
      | Some (Inr h) \<Rightarrow>
          Some (Inr (s\<lparr>heap := h, fFirstBucket := None, fLastBucket := None,
                       fNextBucketIndex := 0\<rparr>)))"

subsection \<open>sort\<close>

text \<open>The body of the inner loop: \<open>T temp = *j; *j = *j.prev(); *j.prev() = temp;\<close>\<close>

definition swap_with_prev :: "int \<Rightarrow> 'a heap \<Rightarrow> iterator \<Rightarrow> fault + 'a heap" where
  "swap_with_prev B h j =
     (case iter_get B h j of
        Inl e \<Rightarrow> Inl e
      | Inr temp \<Rightarrow>
          (case iter_prev B h j of
             Inl e \<Rightarrow> Inl e
           | Inr p \<Rightarrow>
               (case iter_get B h p of
                  Inl e \<Rightarrow> Inl e
                | Inr v \<Rightarrow>
                    (case iter_set B h j v of
                       Inl e \<Rightarrow> Inl e
                     | Inr h1 \<Rightarrow>
                         (case iter_prev B h1 j of
                            Inl e \<Rightarrow> Inl e
                          | Inr p1 \<Rightarrow> iter_set B h1 p1 temp)))))"

text \<open>
  The loop condition \<open>j != begin() && *j.prev() > *j\<close>: the right operand is evaluated
  only when the left one holds.
\<close>

definition out_of_order ::
  "int \<Rightarrow> ('a \<Rightarrow> 'a \<Rightarrow> bool) \<Rightarrow> 'a SliceArray \<Rightarrow> iterator \<Rightarrow> fault + bool" where
  "out_of_order B gt s j =
     (if j \<noteq> begin_iter s then
        (case iter_prev B (heap s) j of
           Inl e \<Rightarrow> Inl e
         | Inr p \<Rightarrow>
             (case iter_get B (heap s) p of
                Inl e \<Rightarrow> Inl e
              | Inr x \<Rightarrow>
                  (case iter_get B (heap s) j of
                     Inl e \<Rightarrow> Inl e
                   | Inr y \<Rightarrow> Inr (gt x y))))
      else Inr False)"

partial_function (option) sort_inner ::
  "int \<Rightarrow> ('a \<Rightarrow> 'a \<Rightarrow> bool) \<Rightarrow> 'a SliceArray \<Rightarrow> iterator \<Rightarrow> (fault + 'a SliceArray) option"
  where
  "sort_inner B gt s j =
     (case out_of_order B gt s j of
        Inl e \<Rightarrow> Some (Inl e)
      | Inr c \<Rightarrow>
          if c then
            (case swap_with_prev B (heap s) j of
               Inl e \<Rightarrow> Some (Inl e)
             | Inr h \<Rightarrow>
                 (case iter_dec B h j of
                    Inl e \<Rightarrow> Some (Inl e)
                  | Inr j1 \<Rightarrow> sort_inner B gt (s\<lparr>heap := h\<rparr>) j1))
          else Some (Inr s))"

text \<open>\<open>for (iterator i = begin().next(), e = end(); i != e; ++i)\<close>\<close>

partial_function (option) sort_outer ::
  "int \<Rightarrow> ('a \<Rightarrow> 'a \<Rightarrow> bool) \<Rightarrow> iterator \<Rightarrow> 'a SliceArray \<Rightarrow> iterator \<Rightarrow>
   (fault + 'a SliceArray) option" where
  "sort_outer B gt e s i =
     (if i \<noteq> e then
        (case sort_inner B gt s i of
           None \<Rightarrow> None
         | Some (Inl er) \<Rightarrow> Some (Inl er)
         | Some (Inr s1) \<Rightarrow>
             (case iter_inc B (heap s1) i of
                Inl er \<Rightarrow> Some (Inl er)
              | Inr i1 \<Rightarrow> sort_outer B gt e s1 i1))
      else Some (Inr s))"

definition sort ::
  "int \<Rightarrow> ('a \<Rightarrow> 'a \<Rightarrow> bool) \<Rightarrow> 'a SliceArray \<Rightarrow> (fault + 'a SliceArray) option" where
  "sort B gt s =
     (if fFirstBucket s = None then Some (Inr s)
      else
        (case iter_next B (heap s) (begin_iter s) of
           Inl e \<Rightarrow> Some (Inl e)
         | Inr i \<Rightarrow> sort_outer B gt (end_iter s) s i))"

subsection \<open>sort, with a log of the iterators it uses\<close>

text \<open>
  The loops of \<open>sort\<close> once more, with a log that is not in the C++. Every value of the
  working iterator \<open>j\<close> at which the condition of the inner loop is evaluated is appended
  to the log, and so is every iterator that \<open>operator*\<close> is applied to, in the order of
  the accesses. Apart from the log the definitions are those of \<open>swap_with_prev\<close>,
  \<open>out_of_order\<close>, \<open>sort_inner\<close>, \<open>sort_outer\<close> and \<open>sort\<close>.
\<close>

definition iter_get_log ::
  "int \<Rightarrow> 'a heap \<Rightarrow> iterator \<Rightarrow> iterator list \<Rightarrow> fault + 'a \<times> iterator list" where
  "iter_get_log B h it lg =
     (case iter_get B h it of Inl e \<Rightarrow> Inl e | Inr x \<Rightarrow> Inr (x, lg @ [it]))"

definition iter_set_log ::
  "int \<Rightarrow> 'a heap \<Rightarrow> iterator \<Rightarrow> 'a \<Rightarrow> iterator list \<Rightarrow> fault + 'a heap \<times> iterator list" where
  "iter_set_log B h it v lg =
     (case iter_set B h it v of Inl e \<Rightarrow> Inl e | Inr h1 \<Rightarrow> Inr (h1, lg @ [it]))"

definition swap_with_prev_log ::
  "int \<Rightarrow> 'a heap \<Rightarrow> iterator \<Rightarrow> iterator list \<Rightarrow> fault + 'a heap \<times> iterator list" where
  "swap_with_prev_log B h j lg =
     (case iter_get_log B h j lg of
        Inl e \<Rightarrow> Inl e
      | Inr (temp, lg1) \<Rightarrow>
          (case iter_prev B h j of
             Inl e \<Rightarrow> Inl e
           | Inr p \<Rightarrow>
               (case iter_get_log B h p lg1 of
                  Inl e \<Rightarrow> Inl e
                | Inr (v, lg2) \<Rightarrow>
                    (case iter_set_log B h j v lg2 of
                       Inl e \<Rightarrow> Inl e
                     | Inr (h1, lg3) \<Rightarrow>
                         (case iter_prev B h1 j of
                            Inl e \<Rightarrow> Inl e
                          | Inr p1 \<Rightarrow> iter_set_log B h1 p1 temp lg3)))))"

definition out_of_order_log ::
  "int \<Rightarrow> ('a \<Rightarrow> 'a \<Rightarrow> bool) \<Rightarrow> 'a SliceArray \<Rightarrow> iterator \<Rightarrow> iterator list \<Rightarrow>
   fault + bool \<times> iterator list" where
  "out_of_order_log B gt s j lg =
     (if j \<noteq> begin_iter s then
        (case iter_prev B (heap s) j of
           Inl e \<Rightarrow> Inl e
         | Inr p \<Rightarrow>
             (case iter_get_log B (heap s) p lg of
                Inl e \<Rightarrow> Inl e
              | Inr (x, lg1) \<Rightarrow>
                  (case iter_get_log B (heap s) j lg1 of
                     Inl e \<Rightarrow> Inl e
                   | Inr (y, lg2) \<Rightarrow> Inr (gt x y, lg2))))
      else Inr (False, lg))"

partial_function (option) sort_inner_log ::
  "int \<Rightarrow> ('a \<Rightarrow> 'a \<Rightarrow> bool) \<Rightarrow> 'a SliceArray \<Rightarrow> iterator \<Rightarrow> iterator list \<Rightarrow>
   (fault + 'a SliceArray \<times> iterator list) option" where
  "sort_inner_log B gt s j lg =
     (case out_of_order_log B gt s j (lg @ [j]) of
        Inl e \<Rightarrow> Some (Inl e)
      | Inr (c, lg1) \<Rightarrow>
          if c then
            (case swap_with_prev_log B (heap s) j lg1 of
               Inl e \<Rightarrow> Some (Inl e)
             | Inr (h, lg2) \<Rightarrow>
                 (case iter_dec B h j of
                    Inl e \<Rightarrow> Some (Inl e)
                  | Inr j1 \<Rightarrow> sort_inner_log B gt (s\<lparr>heap := h\<rparr>) j1 lg2))
          else Some (Inr (s, lg1)))"

partial_function (option) sort_outer_log ::
  "int \<Rightarrow> ('a \<Rightarrow> 'a \<Rightarrow> bool) \<Rightarrow> iterator \<Rightarrow> 'a SliceArray \<Rightarrow> iterator \<Rightarrow> iterator list \<Rightarrow>
   (fault + 'a SliceArray \<times> iterator list) option" where
  "sort_outer_log B gt e s i lg =
     (if i \<noteq> e then
        (case sort_inner_log B gt s i lg of
           None \<Rightarrow> None
         | Some (Inl er) \<Rightarrow> Some (Inl er)
         | Some (Inr (s1, lg1)) \<Rightarrow>
             (case iter_inc B (heap s1) i of
                Inl er \<Rightarrow> Some (Inl er)
              | Inr i1 \<Rightarrow> sort_outer_log B gt e s1 i1 lg1))
      else Some (Inr (s, lg)))"

definition sort_log ::
  "int \<Rightarrow> ('a \<Rightarrow> 'a \<Rightarrow> bool) \<Rightarrow> 'a SliceArray \<Rightarrow>
   (fault + 'a SliceArray \<times> iterator list) option" where
  "sort_log B gt s =
     (if fFirstBucket s = None then Some (Inr (s, []))
      else
        (case iter_next B (heap s) (begin_iter s) of
           Inl e \<Rightarrow> Some (Inl e)
         | Inr i \<Rightarrow> sort_outer_log B gt (end_iter s) s i []))"

text \<open>Dropping the log from a result.\<close>

definition drop_log :: "(fault + 'x \<times> iterator list) option \<Rightarrow> (fault + 'x) option" where
  "drop_log r = map_option (map_sum id fst) r"

text \<open>\<open>compareElements\<close>: \<open>return *t1 > *t2 ? 1 : -1;\<close>\<close>

definition compareElements :: "('a \<Rightarrow> 'a \<Rightarrow> bool) \<Rightarrow> 'a \<Rightarrow> 'a \<Rightarrow> int" where
  "compareElements gt t1 t2 = (if gt t1 t2 then 1 else - 1)"

subsection \<open>Traversal by a client\<close>

text \<open>
  The loop a consumer writes, \<open>for (it = begin(); it != end(); ++it) out.push_back(*it);\<close>
  with \<open>end()\<close> taken once.
\<close>

partial_function (option) collect_from ::
  "int \<Rightarrow> 'a heap \<Rightarrow> iterator \<Rightarrow> iterator \<Rightarrow> 'a list \<Rightarrow> (fault + 'a list) option" where
  "collect_from B h e it out =
     (if it \<noteq> e then
        (case iter_get B h it of
           Inl er \<Rightarrow> Some (Inl er)
         | Inr x \<Rightarrow>
             (case iter_inc B h it of
                Inl er \<Rightarrow> Some (Inl er)
              | Inr it1 \<Rightarrow> collect_from B h e it1 (out @ [x])))
      else Some (Inr out))"

definition collect :: "int \<Rightarrow> 'a SliceArray \<Rightarrow> (fault + 'a list) option" where
  "collect B s = collect_from B (heap s) (end_iter s) (begin_iter s) []"

text \<open>
  \<open>T\<close>'s \<open>operator>\<close> when elements are ordered by a key in a linear order: two elements
  with the same key are then unordered (neither is greater), without being the same
  element.
\<close>

definition gt_key :: "('a \<Rightarrow> 'k::linorder) \<Rightarrow> 'a \<Rightarrow> 'a \<Rightarrow> bool" where
  "gt_key key x y \<longleftrightarrow> key y < key x"

text \<open>
  \<open>k\<close> applications of \<open>operator++\<close>, as in a traversal that steps an iterator \<open>k\<close>
  times.
\<close>

fun iter_advance :: "int \<Rightarrow> 'a heap \<Rightarrow> iterator \<Rightarrow> nat \<Rightarrow> fault + iterator" where
  "iter_advance B h it 0 = Inr it"
| "iter_advance B h it (Suc k) =
     (case iter_inc B h it of Inl e \<Rightarrow> Inl e | Inr it1 \<Rightarrow> iter_advance B h it1 k)"

text \<open>\<open>fBucket->next\<close> where the bucket can be read, and null where it cannot.\<close>

definition next_of :: "'a heap \<Rightarrow> addr option \<Rightarrow> addr option" where
  "next_of h p = (case bucket_at h p of Inl e \<Rightarrow> None | Inr b \<Rightarrow> bnext b)"

subsection \<open>append by several threads\<close>

text \<open>
  A thread inside \<open>append\<close> is at one of the shared-memory accesses of the loop, with its
  locals \<open>index\<close> and \<open>bucket\<close> and its argument \<open>copyFrom\<close>. One step of a thread is
  one such access: the read of \<open>fNextBucketIndex\<close>, the read of \<open>fLastBucket\<close>, the test,
  the call of \<open>allocateBucket\<close>, the compare-and-swap, the store into the slot. Steps of
  different threads interleave in any order; every access takes effect at once
  (sequential consistency). The call of \<open>allocateBucket\<close> is taken as one step: the
  thread finds the lock free and runs the critical section without being preempted,
  which is one of the executions the lock allows.
\<close>

datatype pc = ReadIndex | ReadBucket | Test | Grow | Swap | Store | Done

record 'a thread =
  pc :: pc
  index :: int
  bucket :: "addr option"
  copyFrom :: 'a

definition enter_append :: "'a \<Rightarrow> 'a thread" where
  "enter_append v = \<lparr>pc = ReadIndex, index = 0, bucket = None, copyFrom = v\<rparr>"

definition thread_step ::
  "int \<Rightarrow> 'a \<Rightarrow> 'a thread \<Rightarrow> 'a SliceArray \<Rightarrow> (fault + 'a thread \<times> 'a SliceArray) option" where
  "thread_step B d t s =
     (case pc t of
        ReadIndex \<Rightarrow> Some (Inr (t\<lparr>index := fNextBucketIndex s, pc := ReadBucket\<rparr>, s))
      | ReadBucket \<Rightarrow> Some (Inr (t\<lparr>bucket := fLastBucket s, pc := Test\<rparr>, s))
      | Test \<Rightarrow>
          Some (Inr (t\<lparr>pc := (if must_grow B (index t) (bucket t) then Grow else Swap)\<rparr>, s))
      | Grow \<Rightarrow>
          (case allocateBucket B d s of
             None \<Rightarrow> None
           | Some (Inl e) \<Rightarrow> Some (Inl e)
           | Some (Inr s1) \<Rightarrow> Some (Inr (t\<lparr>pc := ReadIndex\<rparr>, s1)))
      | Swap \<Rightarrow>
          (case cas_index (index t) s of
             (swapped, s1) \<Rightarrow> Some (Inr (t\<lparr>pc := (if swapped then Store else ReadIndex)\<rparr>, s1)))
      | Store \<Rightarrow>
          (case store_slot B (bucket t) (index t) (copyFrom t) s of
             Inl e \<Rightarrow> Some (Inl e)
           | Inr s1 \<Rightarrow> Some (Inr (t\<lparr>pc := Done\<rparr>, s1)))
      | Done \<Rightarrow> Some (Inr (t, s)))"

text \<open>A schedule names, step by step, the thread that moves.\<close>

fun run ::
  "int \<Rightarrow> 'a \<Rightarrow> nat list \<Rightarrow> 'a thread list \<Rightarrow> 'a SliceArray \<Rightarrow>
   (fault + 'a thread list \<times> 'a SliceArray) option" where
  "run B d [] ts s = Some (Inr (ts, s))"
| "run B d (i # sched) ts s =
     (if i < length ts then
        (case thread_step B d (ts ! i) s of
           None \<Rightarrow> None
         | Some (Inl e) \<Rightarrow> Some (Inl e)
         | Some (Inr (t, s1)) \<Rightarrow> run B d sched (ts[i := t]) s1)
      else run B d sched ts s)"

text \<open>
  Four threads and buckets of two slots. Thread 1 appends; thread 0 reads index 1 and
  the first bucket and is preempted before its compare-and-swap; thread 2 appends and
  fills the bucket; thread 3 appends into a new bucket, which brings the index back to
  1; thread 0 resumes.
\<close>

definition stale_index_schedule :: "nat list" where
  "stale_index_schedule =
     [1, 1, 1, 1, 1, 1, 1, 1, 1,
      0, 0, 0,
      2, 2, 2, 2, 2,
      3, 3, 3, 3, 3, 3, 3, 3, 3,
      0, 0]"

section \<open>Invariants of the data model\<close>

text \<open>
  \<open>chain h pr p bs\<close>: following \<open>next\<close> from \<open>p\<close> visits exactly the buckets \<open>bs\<close> and
  ends at null, and each bucket's \<open>prev\<close> is its predecessor (\<open>pr\<close> for the first).
\<close>

fun chain :: "'a heap \<Rightarrow> addr option \<Rightarrow> addr option \<Rightarrow> addr list \<Rightarrow> bool" where
  "chain h pr p [] = (p = None)"
| "chain h pr p (a # as) =
     (p = Some a \<and>
      (case h a of None \<Rightarrow> False | Some b \<Rightarrow> bprev b = pr \<and> chain h (Some a) (bnext b) as))"

definition full_buckets :: "int \<Rightarrow> 'a heap \<Rightarrow> addr list \<Rightarrow> bool" where
  "full_buckets B h bs =
     (\<forall>a \<in> set bs. case h a of None \<Rightarrow> False | Some b \<Rightarrow> length (items b) = nat B)"

text \<open>
  A valid container with bucket chain \<open>bs\<close>: the chain starts at \<open>fFirstBucket\<close>, no
  bucket occurs twice, every bucket has \<open>BUCKET_SIZE\<close> cells, \<open>fLastBucket\<close> is the last
  bucket of the chain, \<open>fNextBucketIndex\<close> lies in \<open>0 .. BUCKET_SIZE\<close> and the growth
  lock is free.
\<close>

definition valid :: "int \<Rightarrow> 'a SliceArray \<Rightarrow> addr list \<Rightarrow> bool" where
  "valid B s bs \<longleftrightarrow>
     0 < B \<and> chain (heap s) None (fFirstBucket s) bs \<and> distinct bs \<and>
     full_buckets B (heap s) bs \<and>
     fLastBucket s = (if bs = [] then None else Some (last bs)) \<and>
     0 \<le> fNextBucketIndex s \<and> fNextBucketIndex s \<le> B \<and>
     (bs = [] \<longrightarrow> fNextBucketIndex s = 0) \<and> fLock s = 0"

text \<open>The allocator is set and every bucket in the store lies below its next address.\<close>

definition alloc_ok :: "'a SliceArray \<Rightarrow> bool" where
  "alloc_ok s =
     (case fAllocator s of None \<Rightarrow> False | Some a \<Rightarrow> \<forall>x. heap s x \<noteq> None \<longrightarrow> x < a)"

text \<open>
  The states a single thread reaches from a new container, with or without an
  allocator, by calls of \<open>append\<close>, \<open>allocateBucket\<close> and \<open>reset\<close> that return.
\<close>

inductive reachable :: "int \<Rightarrow> 'a \<Rightarrow> 'a SliceArray \<Rightarrow> bool" for B :: int and d :: 'a where
  new: "reachable B d SliceArray_init"
| new_allocator: "reachable B d (setAllocator a SliceArray_init)"
| after_append: "reachable B d s \<Longrightarrow> append B d v s = Some (Inr s') \<Longrightarrow> reachable B d s'"
| after_growth: "reachable B d s \<Longrightarrow> allocateBucket B d s = Some (Inr s') \<Longrightarrow> reachable B d s'"
| after_reset: "reachable B d s \<Longrightarrow> reset s = Some (Inr s') \<Longrightarrow> reachable B d s'"

subsection \<open>Logical positions\<close>

text \<open>
  The logical sequence numbers the cells of the chain from 0: position \<open>p\<close> is cell
  \<open>p mod BUCKET_SIZE\<close> of bucket \<open>p div BUCKET_SIZE\<close>. The container holds the first
  \<open>size_of\<close> of them.
\<close>

definition cell :: "int \<Rightarrow> 'a heap \<Rightarrow> addr list \<Rightarrow> nat \<Rightarrow> 'a" where
  "cell B h bs p = items (the (h (bs ! (p div nat B)))) ! (p mod nat B)"

definition cells :: "int \<Rightarrow> 'a heap \<Rightarrow> addr list \<Rightarrow> nat \<Rightarrow> 'a list" where
  "cells B h bs n = map (cell B h bs) [0..<n]"

definition size_of :: "int \<Rightarrow> 'a SliceArray \<Rightarrow> addr list \<Rightarrow> nat" where
  "size_of B s bs = (length bs - 1) * nat B + nat (fNextBucketIndex s)"

definition contents :: "int \<Rightarrow> 'a SliceArray \<Rightarrow> addr list \<Rightarrow> 'a list" where
  "contents B s bs = cells B (heap s) bs (size_of B s bs)"

text \<open>
  The iterator at position \<open>p\<close>. The position after the last cell of the last bucket is
  \<open>(last bucket, BUCKET_SIZE)\<close>, which is what \<open>operator++\<close> and \<open>end()\<close> produce there.
\<close>

definition pos_iter :: "int \<Rightarrow> addr list \<Rightarrow> nat \<Rightarrow> iterator" where
  "pos_iter B bs p =
     (if p < length bs * nat B then iterator (Some (bs ! (p div nat B))) (int (p mod nat B))
      else iterator (Some (last bs)) B)"

definition put_cell :: "int \<Rightarrow> 'a heap \<Rightarrow> addr list \<Rightarrow> nat \<Rightarrow> 'a \<Rightarrow> 'a heap" where
  "put_cell B h bs p v =
     (let a = bs ! (p div nat B); b = the (h a)
      in h(a \<mapsto> b\<lparr>items := (items b)[p mod nat B := v]\<rparr>))"

text \<open>The part of validity that concerns the store only, for a chain that is not empty.\<close>

definition hs :: "int \<Rightarrow> 'a heap \<Rightarrow> addr list \<Rightarrow> bool" where
  "hs B h bs \<longleftrightarrow>
     0 < B \<and> bs \<noteq> [] \<and> chain h None (Some (hd bs)) bs \<and> distinct bs \<and> full_buckets B h bs"

subsection \<open>Insertion sort on lists\<close>

text \<open>
  The two loops of \<open>sort\<close> on a list indexed by position (\<open>ainner\<close>, \<open>aouter\<close>), and the
  same computation as insertion into a sorted prefix held in reverse (\<open>insr\<close>,
  \<open>isort_acc\<close>).
\<close>

fun ainner :: "('a \<Rightarrow> 'a \<Rightarrow> bool) \<Rightarrow> 'a list \<Rightarrow> nat \<Rightarrow> 'a list" where
  "ainner gt xs 0 = xs"
| "ainner gt xs (Suc j) =
     (if gt (xs ! j) (xs ! Suc j) then ainner gt (xs[Suc j := xs ! j, j := xs ! Suc j]) j
      else xs)"

fun aouter :: "('a \<Rightarrow> 'a \<Rightarrow> bool) \<Rightarrow> 'a list \<Rightarrow> nat \<Rightarrow> nat \<Rightarrow> 'a list" where
  "aouter gt xs i 0 = xs"
| "aouter gt xs i (Suc k) = aouter gt (ainner gt xs i) (Suc i) k"

fun insr :: "('a \<Rightarrow> 'a \<Rightarrow> bool) \<Rightarrow> 'a \<Rightarrow> 'a list \<Rightarrow> 'a list" where
  "insr gt x [] = [x]"
| "insr gt x (y # rs) = (if gt y x then y # insr gt x rs else x # y # rs)"

fun isort_acc :: "('a \<Rightarrow> 'a \<Rightarrow> bool) \<Rightarrow> 'a list \<Rightarrow> 'a list \<Rightarrow> 'a list" where
  "isort_acc gt rs [] = rev rs"
| "isort_acc gt rs (z # zs) = isort_acc gt (insr gt z rs) zs"

subsection \<open>Example states\<close>

text \<open>
  Two containers of integers with \<open>BUCKET_SIZE = 2\<close> and an allocator that starts at
  address 0: after appending 3, 1, 2 (two buckets, one slot of the second in use), and
  after appending 5, 6 (one bucket, exactly full).
\<close>

definition example_three :: "int SliceArray" where
  "example_three =
     \<lparr>fFirstBucket = Some 0, fLastBucket = Some 1, fNextBucketIndex = 1,
      fAllocator = Some 2, fLock = 0,
      heap = [0 \<mapsto> \<lparr>bnext = Some 1, bprev = None, items = [3, 1], destroyed = False\<rparr>,
              1 \<mapsto> \<lparr>bnext = None, bprev = Some 0, items = [2, 0], destroyed = False\<rparr>]\<rparr>"

definition example_full :: "int SliceArray" where
  "example_full =
     \<lparr>fFirstBucket = Some 0, fLastBucket = Some 0, fNextBucketIndex = 2,
      fAllocator = Some 1, fLock = 0,
      heap = [0 \<mapsto> \<lparr>bnext = None, bprev = None, items = [5, 6], destroyed = False\<rparr>]\<rparr>"

section \<open>Lemmas\<close>

subsection \<open>Chains and positions\<close>

lemma chain_nth:
  "chain h pr p bs \<Longrightarrow> k < length bs \<Longrightarrow>
   \<exists>b. h (bs ! k) = Some b \<and>
       bnext b = (if Suc k < length bs then Some (bs ! Suc k) else None) \<and>
       bprev b = (if k = 0 then pr else Some (bs ! (k - 1)))"
proof (induction bs arbitrary: pr p k)
  case Nil
  then show ?case by simp
next
  case (Cons a as)
  from Cons.prems(1) obtain b where b: "h a = Some b" "bprev b = pr" "chain h (Some a) (bnext b) as"
    by (auto split: option.splits)
  show ?case
  proof (cases k)
    case 0
    with b show ?thesis by (cases as) (auto split: option.splits)
  next
    case (Suc k')
    with Cons.prems(2) have "k' < length as" by simp
    from Cons.IH[OF b(3) this] Suc show ?thesis by (cases k') auto
  qed
qed

lemma chain_head: "chain h pr p bs \<Longrightarrow> p = (if bs = [] then None else Some (hd bs))"
  by (cases bs) auto

lemma chain_upd_other: "a \<notin> set bs \<Longrightarrow> chain (h(a := x)) pr p bs = chain h pr p bs"
  by (induction bs arbitrary: pr p) (auto split: option.splits)

lemma chain_upd_payload:
  "h a = Some b \<Longrightarrow> bnext b' = bnext b \<Longrightarrow> bprev b' = bprev b \<Longrightarrow>
   chain (h(a \<mapsto> b')) pr p bs = chain h pr p bs"
  by (induction bs arbitrary: pr p) (auto split: option.splits)

lemma div_mod_pos:
  fixes n :: nat
  assumes "0 < n" "p < m * n"
  shows "p div n < m" "p mod n < n"
  using assms by (simp_all add: less_mult_imp_div_less)

lemma hs_bucket:
  assumes "hs B h bs" "k < length bs"
  shows "\<exists>b. h (bs ! k) = Some b \<and> length (items b) = nat B \<and>
       bnext b = (if Suc k < length bs then Some (bs ! Suc k) else None) \<and>
       bprev b = (if k = 0 then None else Some (bs ! (k - 1)))"
proof -
  from assms have c: "chain h None (Some (hd bs)) bs" and f: "full_buckets B h bs"
    by (simp_all add: hs_def)
  from chain_nth[OF c assms(2)] obtain b where b: "h (bs ! k) = Some b"
       "bnext b = (if Suc k < length bs then Some (bs ! Suc k) else None)"
       "bprev b = (if k = 0 then None else Some (bs ! (k - 1)))" by blast
  from f assms(2) b(1) have "length (items b) = nat B"
    by (auto simp: full_buckets_def dest!: bspec[where x="bs ! k"])
  with b show ?thesis by blast
qed

lemma pos_iter_inj:
  assumes "hs B h bs" "p \<le> length bs * nat B" "q \<le> length bs * nat B"
    "pos_iter B bs p = pos_iter B bs q"
  shows "p = q"
proof -
  from assms(1) have B: "0 < nat B" and d: "distinct bs" by (simp_all add: hs_def)
  show ?thesis
  proof (cases "p < length bs * nat B")
    case True
    note p = this
    show ?thesis
    proof (cases "q < length bs * nat B")
      case True
      from p True assms(4) have e: "bs ! (p div nat B) = bs ! (q div nat B)" "p mod nat B = q mod nat B"
        by (simp_all add: pos_iter_def)
      from div_mod_pos[OF B p] div_mod_pos[OF B True] e(1) d have "p div nat B = q div nat B"
        by (simp add: nth_eq_iff_index_eq)
      with e(2) show ?thesis by (metis div_mult_mod_eq)
    next
      case False
      with p assms(4) have "int (p mod nat B) = B" by (simp add: pos_iter_def)
      moreover from B have "p mod nat B < nat B" by simp
      ultimately show ?thesis by linarith
    qed
  next
    case False
    note p = this
    show ?thesis
    proof (cases "q < length bs * nat B")
      case True
      with p assms(4) have "int (q mod nat B) = B" by (simp add: pos_iter_def)
      moreover from B have "q mod nat B < nat B" by simp
      ultimately show ?thesis by linarith
    next
      case False
      with p assms(2,3) show ?thesis by simp
    qed
  qed
qed

lemma iter_inc_pos:
  assumes "hs B h bs" "p < length bs * nat B"
  shows "iter_inc B h (pos_iter B bs p) = Inr (pos_iter B bs (Suc p))"
proof -
  from assms(1) have B: "0 < nat B" "0 < B" by (simp_all add: hs_def)
  let ?k = "p div nat B"
  from div_mod_pos[OF B(1) assms(2)] have k: "?k < length bs" and m: "p mod nat B < nat B" by simp_all
  from hs_bucket[OF assms(1) k] obtain b where b: "h (bs ! ?k) = Some b"
    "bnext b = (if Suc ?k < length bs then Some (bs ! Suc ?k) else None)" by blast
  show ?thesis
  proof (cases "Suc (p mod nat B) = nat B")
    case False
    with m have lt: "Suc (p mod nat B) < nat B" by simp
    then have "Suc p div nat B = ?k" "Suc p mod nat B = Suc (p mod nat B)"
      by (simp_all add: div_Suc mod_Suc)
    moreover have "Suc p < length bs * nat B"
    proof -
      have "p = ?k * nat B + p mod nat B" by simp
      with lt have "Suc p < ?k * nat B + nat B" by linarith
      also have "\<dots> = Suc ?k * nat B" by simp
      also have "\<dots> \<le> length bs * nat B" using k by (simp only: mult_le_mono1 Suc_leI)
      finally show ?thesis .
    qed
    moreover from lt B have "int (p mod nat B) + 1 \<noteq> B" by linarith
    ultimately show ?thesis using assms(2)
      by (simp add: iter_inc_def pos_iter_def Let_def)
  next
    case True
    then have e: "Suc p div nat B = Suc ?k" "Suc p mod nat B = 0"
      by (simp_all add: div_Suc mod_Suc)
    from True B have i: "int (p mod nat B) + 1 = B" by linarith
    show ?thesis
    proof (cases "Suc ?k < length bs")
      case True
      then have "Suc ?k * nat B < length bs * nat B" using B(1) by (rule mult_less_mono1)
      with e have "Suc p < length bs * nat B"
        by (metis add.right_neutral div_mult_mod_eq mult.commute)
      with True e i b assms(2) show ?thesis
        by (simp add: iter_inc_def pos_iter_def Let_def bucket_at_def)
    next
      case False
      with k have l: "Suc ?k = length bs" by simp
      with e have "Suc p = length bs * nat B"
        by (metis add.right_neutral div_mult_mod_eq mult.commute)
      moreover from l k have "bs ! ?k = last bs"
        by (metis diff_Suc_1 last_conv_nth length_greater_0_conv less_nat_zero_code list.size(3))
      ultimately show ?thesis using False i b assms(2)
        by (simp add: iter_inc_def pos_iter_def Let_def bucket_at_def)
    qed
  qed
qed


lemma pred_div_mod:
  fixes n :: nat
  assumes "0 < n" "0 < p"
  shows "p mod n = 0 \<Longrightarrow> (p - 1) div n = p div n - 1 \<and> (p - 1) mod n = n - 1 \<and> 0 < p div n"
    and "p mod n \<noteq> 0 \<Longrightarrow> (p - 1) div n = p div n \<and> (p - 1) mod n = p mod n - 1"
  using assms by (cases p; auto simp: div_Suc mod_Suc split: if_splits)+

lemma iter_dec_pos:
  assumes "hs B h bs" "p < length bs * nat B" "0 < p"
  shows "iter_dec B h (pos_iter B bs p) = Inr (pos_iter B bs (p - 1))"
proof -
  from assms(1) have B: "0 < nat B" "0 < B" by (simp_all add: hs_def)
  let ?k = "p div nat B"
  from div_mod_pos[OF B(1) assms(2)] have k: "?k < length bs" and m: "p mod nat B < nat B" by simp_all
  from hs_bucket[OF assms(1) k] obtain b where b: "h (bs ! ?k) = Some b"
    "bprev b = (if ?k = 0 then None else Some (bs ! (?k - 1)))" by blast
  from assms(2,3) have q: "p - 1 < length bs * nat B" by simp
  show ?thesis
  proof (cases "p mod nat B = 0")
    case True
    from pred_div_mod(1)[OF B(1) assms(3) True]
    have e: "(p - 1) div nat B = ?k - 1" "(p - 1) mod nat B = nat B - 1" "0 < ?k" by simp_all
    from B have "int (nat B - 1) = B - 1" by linarith
    with True e b q assms(2) show ?thesis
      by (simp add: iter_dec_def pos_iter_def Let_def bucket_at_def)
  next
    case False
    from pred_div_mod(2)[OF B(1) assms(3) False]
    have e: "(p - 1) div nat B = ?k" "(p - 1) mod nat B = p mod nat B - 1" by simp_all
    from False have "int (p mod nat B - 1) = int (p mod nat B) - 1" by linarith
    with False e q assms(2) show ?thesis
      by (simp add: iter_dec_def pos_iter_def Let_def)
  qed
qed

lemma iter_get_pos:
  assumes "hs B h bs" "p < length bs * nat B"
  shows "iter_get B h (pos_iter B bs p) = Inr (cell B h bs p)"
proof -
  from assms(1) have B: "0 < nat B" "0 < B" by (simp_all add: hs_def)
  let ?k = "p div nat B"
  from div_mod_pos[OF B(1) assms(2)] have k: "?k < length bs" and m: "p mod nat B < nat B" by simp_all
  from hs_bucket[OF assms(1) k] obtain b where b: "h (bs ! ?k) = Some b" by blast
  from m B have "int (p mod nat B) < B" by linarith
  with b assms(2) show ?thesis
    by (simp add: iter_get_def load_item_def pos_iter_def bucket_at_def cell_def)
qed

lemma iter_set_pos:
  assumes "hs B h bs" "p < length bs * nat B"
  shows "iter_set B h (pos_iter B bs p) v = Inr (put_cell B h bs p v)"
proof -
  from assms(1) have B: "0 < nat B" "0 < B" by (simp_all add: hs_def)
  let ?k = "p div nat B"
  from div_mod_pos[OF B(1) assms(2)] have k: "?k < length bs" and m: "p mod nat B < nat B" by simp_all
  from hs_bucket[OF assms(1) k] obtain b where b: "h (bs ! ?k) = Some b" by blast
  from m B have "int (p mod nat B) < B" by linarith
  with b assms(2) show ?thesis
    by (simp add: iter_set_def store_item_def pos_iter_def put_cell_def Let_def)
qed

lemma full_buckets_upd:
  "full_buckets B h bs \<Longrightarrow> length (items b') = nat B \<Longrightarrow> full_buckets B (h(a \<mapsto> b')) bs"
  by (auto simp: full_buckets_def)

lemma hs_put_cell:
  assumes "hs B h bs" "p < length bs * nat B"
  shows "hs B (put_cell B h bs p v) bs"
proof -
  from assms(1) have B: "0 < nat B" "0 < B" by (simp_all add: hs_def)
  let ?k = "p div nat B"
  from div_mod_pos[OF B(1) assms(2)] have k: "?k < length bs" by simp
  from hs_bucket[OF assms(1) k] obtain b where b: "h (bs ! ?k) = Some b" "length (items b) = nat B"
    by blast
  let ?b' = "b\<lparr>items := (items b)[p mod nat B := v]\<rparr>"
  have p: "put_cell B h bs p v = h(bs ! ?k \<mapsto> ?b')"
    using b by (simp add: put_cell_def Let_def)
  have "chain (h(bs ! ?k \<mapsto> ?b')) None (Some (hd bs)) bs = chain h None (Some (hd bs)) bs"
    using b(1) by (intro chain_upd_payload[where b=b]) simp_all
  moreover have "full_buckets B (h(bs ! ?k \<mapsto> ?b')) bs"
    using assms(1) b(2) by (intro full_buckets_upd) (simp_all add: hs_def)
  ultimately show ?thesis using assms(1) p by (simp add: hs_def)
qed

lemma cell_put_cell:
  assumes "hs B h bs" "p < length bs * nat B" "q < length bs * nat B"
  shows "cell B (put_cell B h bs p v) bs q = (if q = p then v else cell B h bs q)"
proof -
  from assms(1) have B: "0 < nat B" "0 < B" and d: "distinct bs" by (simp_all add: hs_def)
  let ?k = "p div nat B"
  from div_mod_pos[OF B(1) assms(2)] have k: "?k < length bs" and m: "p mod nat B < nat B" by simp_all
  from div_mod_pos[OF B(1) assms(3)] have kq: "q div nat B < length bs" by simp
  from hs_bucket[OF assms(1) k] obtain b where b: "h (bs ! ?k) = Some b" "length (items b) = nat B"
    by blast
  have p: "put_cell B h bs p v = h(bs ! ?k \<mapsto> b\<lparr>items := (items b)[p mod nat B := v]\<rparr>)"
    using b by (simp add: put_cell_def Let_def)
  show ?thesis
  proof (cases "q div nat B = ?k")
    case True
    note same = this
    show ?thesis
    proof (cases "q mod nat B = p mod nat B")
      case True
      with same have "q = p" by (metis div_mult_mod_eq)
      with b m show ?thesis by (simp add: p cell_def)
    next
      case False
      then have "q \<noteq> p" by auto
      with False same b show ?thesis by (simp add: p cell_def)
    qed
  next
    case False
    with d k kq have "bs ! (q div nat B) \<noteq> bs ! ?k" by (simp add: nth_eq_iff_index_eq)
    moreover from False have "q \<noteq> p" by auto
    ultimately show ?thesis by (simp add: p cell_def)
  qed
qed

subsection \<open>Insertion sort on lists\<close>

lemma length_ainner: "length (ainner gt xs j) = length xs"
  by (induction gt xs j rule: ainner.induct) auto

lemma length_insr: "length (insr gt x rs) = Suc (length rs)"
  by (induction rs) auto

lemma ainner_insr:
  "ainner gt (ys @ x # zs) (length ys) = rev (insr gt x (rev ys)) @ zs"
proof (induction ys arbitrary: zs rule: rev_induct)
  case Nil
  then show ?case by simp
next
  case (snoc y ys)
  have n: "(ys @ [y] @ x # zs) ! length ys = y" "(ys @ [y] @ x # zs) ! Suc (length ys) = x"
    by (simp_all add: nth_append)
  have u: "(ys @ [y] @ x # zs)[Suc (length ys) := y, length ys := x] = ys @ x # (y # zs)"
    by (simp add: list_update_append)
  show ?case
  proof (cases "gt y x")
    case True
    with n u snoc.IH[of "y # zs"] show ?thesis by simp
  next
    case False
    with n show ?thesis by simp
  qed
qed

lemma aouter_isort:
  "aouter gt (ys @ zs) (length ys) (length zs) = isort_acc gt (rev ys) zs"
proof (induction zs arbitrary: ys)
  case Nil
  then show ?case by simp
next
  case (Cons z zs)
  have "aouter gt (ys @ z # zs) (length ys) (length (z # zs)) =
        aouter gt (rev (insr gt z (rev ys)) @ zs) (Suc (length ys)) (length zs)"
    by (simp add: ainner_insr)
  also have "\<dots> = isort_acc gt (rev (rev (insr gt z (rev ys)))) zs"
    using Cons.IH[of "rev (insr gt z (rev ys))"] by (simp add: length_insr)
  finally show ?case by simp
qed

lemma aouter_from_1:
  assumes "xs \<noteq> []"
  shows "aouter gt xs 1 (length xs - 1) = isort_acc gt [] xs"
proof -
  from assms obtain x zs where xs: "xs = x # zs" by (cases xs) auto
  have "aouter gt ([x] @ zs) (length [x]) (length zs) = isort_acc gt (rev [x]) zs"
    by (rule aouter_isort)
  with xs show ?thesis by simp
qed

lemma mset_insr: "mset (insr gt x rs) = add_mset x (mset rs)"
  by (induction rs) auto

lemma mset_isort_acc: "mset (isort_acc gt rs zs) = mset rs + mset zs"
  by (induction zs arbitrary: rs) (auto simp: mset_insr)

lemma set_insr: "set (insr gt x rs) = insert x (set rs)"
  by (induction rs) auto

lemma sorted_insr:
  "sorted (rev (map key rs)) \<Longrightarrow> sorted (rev (map key (insr (gt_key key) x rs)))"
proof (induction rs)
  case Nil
  then show ?case by simp
next
  case (Cons y rs)
  then have s: "sorted (rev (map key rs))" and le: "\<forall>a \<in> set rs. key a \<le> key y"
    by (auto simp: sorted_append)
  show ?case
  proof (cases "key x < key y")
    case True
    with Cons.IH[OF s] le show ?thesis
      by (auto simp: sorted_append gt_key_def set_insr)
  next
    case False
    with Cons.prems le show ?thesis
      by (auto simp: sorted_append gt_key_def)
  qed
qed

lemma sorted_isort_acc:
  "sorted (rev (map key rs)) \<Longrightarrow> sorted (map key (isort_acc (gt_key key) rs zs))"
proof (induction zs arbitrary: rs)
  case Nil
  then show ?case by (simp add: rev_map)
next
  case (Cons z zs)
  from Cons.IH[OF sorted_insr[OF Cons.prems]] show ?case by simp
qed

lemma filter_insr:
  "filter (\<lambda>a. key a = k) (insr (gt_key key) x rs) =
   (if key x = k then [x] else []) @ filter (\<lambda>a. key a = k) rs"
  by (induction rs) (auto simp: gt_key_def)

lemma filter_isort_acc:
  "filter (\<lambda>a. key a = k) (isort_acc (gt_key key) rs zs) =
   filter (\<lambda>a. key a = k) (rev rs) @ filter (\<lambda>a. key a = k) zs"
proof (induction zs arbitrary: rs)
  case Nil
  then show ?case by simp
next
  case (Cons z zs)
  show ?case
    by (simp add: Cons.IH filter_insr rev_filter[symmetric] del: rev_filter)
qed

subsection \<open>The loops of sort and of a traversal\<close>

lemma valid_first: "valid B s bs \<Longrightarrow> fFirstBucket s = (if bs = [] then None else Some (hd bs))"
  unfolding valid_def by (elim conjE) (rule chain_head)

lemma valid_hs:
  assumes "valid B s bs" "bs \<noteq> []"
  shows "hs B (heap s) bs"
proof -
  from valid_first[OF assms(1)] assms(2) have "fFirstBucket s = Some (hd bs)" by simp
  with assms show ?thesis by (simp add: valid_def hs_def)
qed

lemma iter_dec_Suc:
  assumes "hs B h bs" "Suc p < length bs * nat B"
  shows "iter_dec B h (pos_iter B bs (Suc p)) = Inr (pos_iter B bs p)"
  using iter_dec_pos[OF assms] by simp

lemma begin_iter_pos:
  assumes "0 < B" "bs \<noteq> []" "fFirstBucket s = Some (hd bs)"
  shows "begin_iter s = pos_iter B bs 0"
  using assms by (simp add: begin_iter_def pos_iter_def hd_conv_nth)

lemma size_of_le:
  assumes "valid B s bs" "bs \<noteq> []"
  shows "size_of B s bs \<le> length bs * nat B"
proof -
  from assms(1) have "fNextBucketIndex s \<le> B" by (simp add: valid_def)
  then have "nat (fNextBucketIndex s) \<le> nat B" by simp
  then have "(length bs - 1) * nat B + nat (fNextBucketIndex s) \<le> (length bs - 1) * nat B + nat B"
    by simp
  also have "\<dots> = Suc (length bs - 1) * nat B" by simp
  also from assms(2) have "Suc (length bs - 1) = length bs" by simp
  finally show ?thesis by (simp add: size_of_def)
qed

lemma end_iter_pos:
  assumes "valid B s bs" "bs \<noteq> []"
  shows "end_iter s = pos_iter B bs (size_of B s bs)"
proof -
  from assms(1) have B: "0 < B" and i: "0 \<le> fNextBucketIndex s" "fNextBucketIndex s \<le> B"
    and l: "fLastBucket s = Some (last bs)" using assms(2) by (simp_all add: valid_def)
  let ?L = "length bs - 1"
  from assms(2) have L: "Suc ?L = length bs" by simp
  show ?thesis
  proof (cases "fNextBucketIndex s = B")
    case True
    then have "size_of B s bs = ?L * nat B + nat B" by (simp add: size_of_def)
    also have "\<dots> = Suc ?L * nat B" by simp
    finally have "size_of B s bs = length bs * nat B" by (simp only: L)
    with True l show ?thesis by (simp add: end_iter_def pos_iter_def)
  next
    case False
    with i B have lt: "nat (fNextBucketIndex s) < nat B" by linarith
    then have dm: "size_of B s bs div nat B = ?L" "size_of B s bs mod nat B = nat (fNextBucketIndex s)"
      by (simp_all add: size_of_def)
    have "size_of B s bs < ?L * nat B + nat B" using lt by (simp add: size_of_def)
    also have "\<dots> = Suc ?L * nat B" by simp
    finally have "size_of B s bs < length bs * nat B" by (simp only: L)
    with dm l i assms(2) show ?thesis
      by (simp add: end_iter_def pos_iter_def last_conv_nth)
  qed
qed

lemma length_cells [simp]: "length (cells B h bs n) = n"
  by (simp add: cells_def)

lemma nth_cells [simp]: "p < n \<Longrightarrow> cells B h bs n ! p = cell B h bs p"
  by (simp add: cells_def)

lemma cells_put_cell:
  assumes "hs B h bs" "p < length bs * nat B" "n \<le> length bs * nat B"
  shows "cells B (put_cell B h bs p v) bs n = (cells B h bs n)[p := v]"
proof (rule nth_equalityI)
  show "length (cells B (put_cell B h bs p v) bs n) = length ((cells B h bs n)[p := v])" by simp
next
  fix q assume "q < length (cells B (put_cell B h bs p v) bs n)"
  then have q: "q < n" by simp
  with assms(3) have "q < length bs * nat B" by simp
  from cell_put_cell[OF assms(1,2) this] q
  show "cells B (put_cell B h bs p v) bs n ! q = (cells B h bs n)[p := v] ! q"
    by (simp add: nth_list_update)
qed

lemma swap_with_prev_pos:
  assumes "hs B h bs" "Suc p < length bs * nat B"
  shows "swap_with_prev B h (pos_iter B bs (Suc p)) =
         Inr (put_cell B (put_cell B h bs (Suc p) (cell B h bs p)) bs p (cell B h bs (Suc p)))"
proof -
  from assms(2) have q: "p < length bs * nat B" by simp
  let ?h1 = "put_cell B h bs (Suc p) (cell B h bs p)"
  have h1: "hs B ?h1 bs" by (rule hs_put_cell[OF assms(1,2)])
  show ?thesis
    by (simp add: swap_with_prev_def iter_prev_def iter_get_pos[OF assms(1,2)]
        iter_dec_Suc[OF assms] iter_get_pos[OF assms(1) q] iter_set_pos[OF assms(1,2)]
        iter_dec_Suc[OF h1 assms(2)] iter_set_pos[OF h1 q])
qed

lemma out_of_order_begin: "out_of_order B gt s (begin_iter s) = Inr False"
  by (simp add: out_of_order_def)

lemma out_of_order_pos:
  assumes "hs B (heap s) bs" "fFirstBucket s = Some (hd bs)" "Suc p < length bs * nat B"
  shows "out_of_order B gt s (pos_iter B bs (Suc p)) =
         Inr (gt (cell B (heap s) bs p) (cell B (heap s) bs (Suc p)))"
proof -
  from assms(1) have B: "0 < B" and ne: "bs \<noteq> []" by (simp_all add: hs_def)
  note bg = begin_iter_pos[OF B ne assms(2)]
  from assms(3) have q: "p < length bs * nat B" by simp
  have "pos_iter B bs (Suc p) \<noteq> pos_iter B bs 0"
    using pos_iter_inj[OF assms(1), of "Suc p" 0] assms(3) by auto
  then show ?thesis
    by (simp add: out_of_order_def bg iter_prev_def iter_dec_Suc[OF assms(1,3)]
        iter_get_pos[OF assms(1,3)] iter_get_pos[OF assms(1) q])
qed

lemma sort_inner_refines:
  assumes "hs B (heap s) bs" "fFirstBucket s = Some (hd bs)" "j < n" "n \<le> length bs * nat B"
  shows "\<exists>h. sort_inner B gt s (pos_iter B bs j) = Some (Inr (s\<lparr>heap := h\<rparr>)) \<and> hs B h bs \<and>
             cells B h bs n = ainner gt (cells B (heap s) bs n) j"
  using assms
proof (induction j arbitrary: s)
  case 0
  then have "0 < B" "bs \<noteq> []" by (simp_all add: hs_def)
  from begin_iter_pos[OF this "0.prems"(2)]
  have "sort_inner B gt s (pos_iter B bs 0) = Some (Inr s)"
    using out_of_order_begin[of B gt s] by (subst sort_inner.simps) simp
  moreover have "s = s\<lparr>heap := heap s\<rparr>" by simp
  ultimately show ?case using "0.prems"(1) by (metis ainner.simps(1))
next
  case (Suc j)
  let ?h = "heap s"
  let ?p = "Suc j"
  from Suc.prems have p: "?p < length bs * nat B" and j: "j < n" by simp_all
  note oo = out_of_order_pos[OF Suc.prems(1,2) p, of gt]
  show ?case
  proof (cases "gt (cell B ?h bs j) (cell B ?h bs ?p)")
    case False
    with oo have "sort_inner B gt s (pos_iter B bs ?p) = Some (Inr s)"
      by (subst sort_inner.simps) simp
    moreover have "s = s\<lparr>heap := heap s\<rparr>" by simp
    moreover from False j Suc.prems(3)
    have "ainner gt (cells B ?h bs n) ?p = cells B ?h bs n" by simp
    ultimately show ?thesis using Suc.prems(1) by metis
  next
    case True
    let ?h1 = "put_cell B ?h bs ?p (cell B ?h bs j)"
    let ?h2 = "put_cell B ?h1 bs j (cell B ?h bs ?p)"
    from p have q: "j < length bs * nat B" by simp
    have h1: "hs B ?h1 bs" by (rule hs_put_cell[OF Suc.prems(1) p])
    have h2: "hs B ?h2 bs" by (rule hs_put_cell[OF h1 q])
    have sw: "swap_with_prev B ?h (pos_iter B bs ?p) = Inr ?h2"
      by (rule swap_with_prev_pos[OF Suc.prems(1) p])
    have dec: "iter_dec B ?h2 (pos_iter B bs ?p) = Inr (pos_iter B bs j)"
      by (rule iter_dec_Suc[OF h2 p])
    have step: "sort_inner B gt s (pos_iter B bs ?p) =
                sort_inner B gt (s\<lparr>heap := ?h2\<rparr>) (pos_iter B bs j)"
      using oo True sw dec by (subst sort_inner.simps) simp
    have "\<exists>h. sort_inner B gt (s\<lparr>heap := ?h2\<rparr>) (pos_iter B bs j) =
                Some (Inr (s\<lparr>heap := ?h2\<rparr>\<lparr>heap := h\<rparr>)) \<and> hs B h bs \<and>
                cells B h bs n = ainner gt (cells B (heap (s\<lparr>heap := ?h2\<rparr>)) bs n) j"
      using h2 Suc.prems(2) j Suc.prems(4) by (intro Suc.IH) simp_all
    then obtain h where h: "sort_inner B gt (s\<lparr>heap := ?h2\<rparr>) (pos_iter B bs j) =
                Some (Inr (s\<lparr>heap := h\<rparr>))" "hs B h bs"
                "cells B h bs n = ainner gt (cells B ?h2 bs n) j"
      by auto
    have "cells B ?h2 bs n = (cells B ?h bs n)[?p := cell B ?h bs j, j := cell B ?h bs ?p]"
      by (simp add: cells_put_cell[OF h1 q Suc.prems(4)] cells_put_cell[OF Suc.prems(1) p Suc.prems(4)])
    with h(3) True j Suc.prems(3)
    have "cells B h bs n = ainner gt (cells B ?h bs n) ?p" by simp
    with step h(1,2) show ?thesis by auto
  qed
qed

lemma sort_outer_refines:
  assumes "hs B (heap s) bs" "fFirstBucket s = Some (hd bs)" "i \<le> n" "n \<le> length bs * nat B"
    "k = n - i"
  shows "\<exists>h. sort_outer B gt (pos_iter B bs n) s (pos_iter B bs i) = Some (Inr (s\<lparr>heap := h\<rparr>)) \<and>
             hs B h bs \<and> cells B h bs n = aouter gt (cells B (heap s) bs n) i k"
  using assms
proof (induction k arbitrary: s i)
  case 0
  then have "i = n" by simp
  then have "sort_outer B gt (pos_iter B bs n) s (pos_iter B bs i) = Some (Inr s)"
    by (subst sort_outer.simps) simp
  moreover have "s = s\<lparr>heap := heap s\<rparr>" by simp
  ultimately show ?case using "0.prems"(1) by (metis aouter.simps(1))
next
  case (Suc k)
  then have i: "i < n" and il: "i < length bs * nat B" by simp_all
  have ne: "pos_iter B bs i \<noteq> pos_iter B bs n"
    using pos_iter_inj[OF Suc.prems(1), of i n] i Suc.prems(4) by auto
  from sort_inner_refines[OF Suc.prems(1,2) i Suc.prems(4), of gt]
  obtain h1 where h1: "sort_inner B gt s (pos_iter B bs i) = Some (Inr (s\<lparr>heap := h1\<rparr>))"
    "hs B h1 bs" "cells B h1 bs n = ainner gt (cells B (heap s) bs n) i" by blast
  have inc: "iter_inc B h1 (pos_iter B bs i) = Inr (pos_iter B bs (Suc i))"
    by (rule iter_inc_pos[OF h1(2) il])
  have step: "sort_outer B gt (pos_iter B bs n) s (pos_iter B bs i) =
              sort_outer B gt (pos_iter B bs n) (s\<lparr>heap := h1\<rparr>) (pos_iter B bs (Suc i))"
    using ne h1(1) inc by (subst sort_outer.simps) simp
  have "\<exists>h. sort_outer B gt (pos_iter B bs n) (s\<lparr>heap := h1\<rparr>) (pos_iter B bs (Suc i)) =
              Some (Inr (s\<lparr>heap := h1\<rparr>\<lparr>heap := h\<rparr>)) \<and> hs B h bs \<and>
              cells B h bs n = aouter gt (cells B (heap (s\<lparr>heap := h1\<rparr>)) bs n) (Suc i) k"
    using h1(2) Suc.prems(2,4,5) i by (intro Suc.IH) simp_all
  then obtain h where h: "sort_outer B gt (pos_iter B bs n) (s\<lparr>heap := h1\<rparr>) (pos_iter B bs (Suc i)) =
              Some (Inr (s\<lparr>heap := h\<rparr>))" "hs B h bs"
              "cells B h bs n = aouter gt (cells B h1 bs n) (Suc i) k" by auto
  from h(3) h1(3) have "cells B h bs n = aouter gt (cells B (heap s) bs n) i (Suc k)" by simp
  with step h(1,2) show ?case by auto
qed

lemma collect_from_pos:
  assumes "hs B h bs" "i \<le> n" "n \<le> length bs * nat B" "k = n - i"
  shows "collect_from B h (pos_iter B bs n) (pos_iter B bs i) out =
         Some (Inr (out @ map (cell B h bs) [i..<n]))"
  using assms
proof (induction k arbitrary: i out)
  case 0
  then have "i = n" by simp
  then show ?case by (subst collect_from.simps) simp
next
  case (Suc k)
  then have i: "i < n" and il: "i < length bs * nat B" by simp_all
  have ne: "pos_iter B bs i \<noteq> pos_iter B bs n"
    using pos_iter_inj[OF Suc.prems(1), of i n] i Suc.prems(3) by auto
  have "collect_from B h (pos_iter B bs n) (pos_iter B bs i) out =
        collect_from B h (pos_iter B bs n) (pos_iter B bs (Suc i)) (out @ [cell B h bs i])"
    using ne iter_get_pos[OF Suc.prems(1) il] iter_inc_pos[OF Suc.prems(1) il]
    by (subst collect_from.simps) simp
  also have "\<dots> = Some (Inr ((out @ [cell B h bs i]) @ map (cell B h bs) [Suc i..<n]))"
    using Suc.prems i by (intro Suc.IH) simp_all
  finally show ?case using i by (simp add: upt_conv_Cons)
qed

lemma collect_contents:
  assumes "valid B s bs"
  shows "collect B s = Some (Inr (contents B s bs))"
proof (cases "bs = []")
  case True
  with assms have "begin_iter s = end_iter s" "size_of B s bs = 0"
    by (auto simp: valid_def begin_iter_def end_iter_def size_of_def)
  then show ?thesis
    by (simp add: collect_def contents_def cells_def collect_from.simps)
next
  case False
  note h = valid_hs[OF assms False]
  from assms have B: "0 < B" by (simp add: valid_def)
  from valid_first[OF assms] False have f: "fFirstBucket s = Some (hd bs)" by simp
  show ?thesis
    using collect_from_pos[OF h _ size_of_le[OF assms False] refl, of 0 "[]"]
    by (simp add: collect_def contents_def cells_def begin_iter_pos[OF B False f]
        end_iter_pos[OF assms False])
qed

subsection \<open>sort and growth on valid states\<close>

lemma begin_end_nonempty:
  assumes "valid B s bs" "begin_iter s \<noteq> end_iter s"
  shows "bs \<noteq> [] \<and> 0 < size_of B s bs"
proof -
  have ne: "bs \<noteq> []"
  proof
    assume "bs = []"
    with assms(1) have "begin_iter s = end_iter s"
      by (auto simp: valid_def begin_iter_def end_iter_def)
    with assms(2) show False by simp
  qed
  from assms(1) have B: "0 < B" by (simp add: valid_def)
  from valid_first[OF assms(1)] ne have f: "fFirstBucket s = Some (hd bs)" by simp
  from assms(2) begin_iter_pos[OF B ne f] end_iter_pos[OF assms(1) ne]
  have "size_of B s bs \<noteq> 0" by (metis)
  with ne show ?thesis by simp
qed

lemma valid_heap_upd:
  assumes "valid B s bs" "bs \<noteq> []" "hs B h bs"
  shows "valid B (s\<lparr>heap := h\<rparr>) bs"
proof -
  from valid_first[OF assms(1)] assms(2) have "fFirstBucket s = Some (hd bs)" by simp
  with assms show ?thesis by (simp add: valid_def hs_def)
qed

lemma sort_valid:
  assumes "valid B s bs" "begin_iter s \<noteq> end_iter s"
  shows "\<exists>h. sort B gt s = Some (Inr (s\<lparr>heap := h\<rparr>)) \<and> valid B (s\<lparr>heap := h\<rparr>) bs \<and>
             contents B (s\<lparr>heap := h\<rparr>) bs = isort_acc gt [] (contents B s bs)"
proof -
  from begin_end_nonempty[OF assms] have ne: "bs \<noteq> []" and n: "0 < size_of B s bs" by simp_all
  let ?n = "size_of B s bs"
  note h = valid_hs[OF assms(1) ne]
  from assms(1) have B: "0 < B" by (simp add: valid_def)
  from valid_first[OF assms(1)] ne have f: "fFirstBucket s = Some (hd bs)" by simp
  note nl = size_of_le[OF assms(1) ne]
  from n nl have l: "0 < length bs * nat B" by (rule less_le_trans)
  have nx: "iter_next B (heap s) (begin_iter s) = Inr (pos_iter B bs (Suc 0))"
    using iter_inc_pos[OF h l] by (simp add: iter_next_def begin_iter_pos[OF B ne f])
  from n have i: "Suc 0 \<le> ?n" by simp
  from sort_outer_refines[OF h f i nl refl, of gt]
  obtain h' where h': "sort_outer B gt (pos_iter B bs ?n) s (pos_iter B bs (Suc 0)) =
       Some (Inr (s\<lparr>heap := h'\<rparr>))" "hs B h' bs"
       "cells B h' bs ?n = aouter gt (cells B (heap s) bs ?n) (Suc 0) (?n - Suc 0)" by blast
  have "sort B gt s = Some (Inr (s\<lparr>heap := h'\<rparr>))"
    using f nx h'(1) by (simp add: sort_def end_iter_pos[OF assms(1) ne])
  moreover have "valid B (s\<lparr>heap := h'\<rparr>) bs" by (rule valid_heap_upd[OF assms(1) ne h'(2)])
  moreover have "contents B (s\<lparr>heap := h'\<rparr>) bs = isort_acc gt [] (contents B s bs)"
  proof -
    from n have "cells B (heap s) bs ?n \<noteq> []" by (metis length_cells length_0_conv less_numeral_extra(3))
    from aouter_from_1[OF this, of gt] h'(3) show ?thesis
      by (simp add: contents_def size_of_def)
  qed
  ultimately show ?thesis by blast
qed

lemma sort_empty: "fFirstBucket s = None \<Longrightarrow> sort B gt s = Some (Inr s)"
  by (simp add: sort_def)

lemma acquire_lock_free: "fLock s = 0 \<Longrightarrow> acquire_lock s = Some (s\<lparr>fLock := 1\<rparr>)"
  by (subst acquire_lock.simps) simp

lemma chain_snoc:
  "chain h pr p bs \<Longrightarrow> bs \<noteq> [] \<Longrightarrow> distinct bs \<Longrightarrow> a \<notin> set bs \<Longrightarrow>
   h (last bs) = Some lb \<Longrightarrow> bnext nbk = None \<Longrightarrow> bprev nbk = Some (last bs) \<Longrightarrow>
   chain (h(a \<mapsto> nbk, last bs \<mapsto> lb\<lparr>bnext := Some a\<rparr>)) pr p (bs @ [a])"
proof (induction bs arbitrary: pr p)
  case Nil
  then show ?case by simp
next
  case (Cons x xs)
  show ?case
  proof (cases xs)
    case Nil
    with Cons.prems show ?thesis by (auto split: option.splits)
  next
    case (Cons y ys)
    with Cons.prems obtain b where b: "h x = Some b" "bprev b = pr" "chain h (Some x) (bnext b) xs"
      by (auto split: option.splits)
    from Cons Cons.prems have l: "last (x # xs) = last xs" "x \<noteq> last xs" "x \<noteq> a" by auto
    have ih: "chain (h(a \<mapsto> nbk, last xs \<mapsto> lb\<lparr>bnext := Some a\<rparr>)) (Some x) (bnext b) (xs @ [a])"
      using Cons.prems Cons l b(3) by (intro Cons.IH) auto
    have hx: "(h(a \<mapsto> nbk, last xs \<mapsto> lb\<lparr>bnext := Some a\<rparr>)) x = Some b"
      using l b(1) by simp
    from Cons.prems(1) have "p = Some x" by simp
    with hx ih b(2) l(1) show ?thesis by (simp del: fun_upd_apply)
  qed
qed

lemma alloc_ok_fresh:
  assumes "alloc_ok s" "fAllocator s = Some a"
  shows "heap s a = None"
  using assms by (auto simp: alloc_ok_def)

lemma valid_in_heap:
  assumes "valid B s bs" "x \<in> set bs"
  shows "\<exists>b. heap s x = Some b \<and> length (items b) = nat B"
  using assms by (auto simp: valid_def full_buckets_def split: option.splits dest!: bspec[where x=x])

text \<open>growth of an empty chain\<close>
lemma grow_first:
  fixes d :: 'a
  assumes "valid B s []" "alloc_ok s" "fAllocator s = Some a"
  defines "s' \<equiv> s\<lparr>fAllocator := Some (Suc a),
       heap := (heap s)(a \<mapsto> \<lparr>bnext = None, bprev = None, items = replicate (nat B) d, destroyed = False\<rparr>),
       fFirstBucket := Some a, fLastBucket := Some a, fNextBucketIndex := 0\<rparr>"
  shows "grow B d s = Inr s'" "valid B s' [a]" "alloc_ok s'"
proof -
  from assms(1) have l: "fLastBucket s = None" and B: "0 < B" and k: "fLock s = 0"
    by (simp_all add: valid_def)
  show "grow B d s = Inr s'"
    using l assms(3) by (simp add: grow_def link_bucket_def newBucket_def s'_def)
  show "valid B s' [a]"
    using B k by (simp add: valid_def s'_def full_buckets_def)
  show "alloc_ok s'"
    using assms(2,3) by (auto simp: alloc_ok_def s'_def less_Suc_eq)
qed

lemma grow_next:
  fixes d :: 'a
  assumes "valid B s bs" "alloc_ok s" "fAllocator s = Some a" "bs \<noteq> []" "fNextBucketIndex s = B"
    "heap s (last bs) = Some lb"
  defines "s' \<equiv> s\<lparr>fAllocator := Some (Suc a),
       heap := (heap s)(a \<mapsto> \<lparr>bnext = None, bprev = Some (last bs), items = replicate (nat B) d, destroyed = False\<rparr>,
                       last bs \<mapsto> lb\<lparr>bnext := Some a\<rparr>),
       fLastBucket := Some a, fNextBucketIndex := 0\<rparr>"
  shows "grow B d s = Inr s'" "valid B s' (bs @ [a])" "alloc_ok s'"
proof -
  from assms(1,4) have l: "fLastBucket s = Some (last bs)" and B: "0 < B" and k: "fLock s = 0"
    and d: "distinct bs" and c: "chain (heap s) None (fFirstBucket s) bs"
    and fb: "full_buckets B (heap s) bs"
    by (simp_all add: valid_def)
  note fr = alloc_ok_fresh[OF assms(2,3)]
  have na: "a \<notin> set bs"
  proof
    assume "a \<in> set bs"
    from valid_in_heap[OF assms(1) this] fr show False by simp
  qed
  from assms(4) have "last bs \<in> set bs" by simp
  with na have la: "last bs \<noteq> a" by auto
  show "grow B d s = Inr s'"
    using l assms(3,5,6) la by (simp add: grow_def link_bucket_def newBucket_def s'_def Let_def)
  have ch: "chain (heap s') None (fFirstBucket s') (bs @ [a])"
    using chain_snoc[OF c assms(4) d na assms(6), where nbk="\<lparr>bnext = None, bprev = Some (last bs), items = replicate (nat B) d, destroyed = False\<rparr>"]
    by (simp add: s'_def)
  have fb': "full_buckets B (heap s') (bs @ [a])"
    using fb valid_in_heap[OF assms(1) \<open>last bs \<in> set bs\<close>] assms(6) la
    by (auto simp: full_buckets_def s'_def split: option.splits)
  show "valid B s' (bs @ [a])"
    using ch fb' d na B k unfolding valid_def by (simp add: s'_def)
  show "alloc_ok s'"
    using assms(2,3,6) by (auto simp: alloc_ok_def s'_def less_Suc_eq)
qed

subsection \<open>allocateBucket, append and reset on valid states\<close>

lemma cell_snoc:
  fixes lb :: "'a Bucket"
  assumes "0 < B" "p < length bs * nat B" "a \<notin> set bs" "h (last bs) = Some lb"
  shows "cell B (h(a \<mapsto> nb, last bs \<mapsto> lb\<lparr>bnext := x\<rparr>)) (bs @ [a]) p = cell B h bs p"
proof -
  from assms(1) have B: "0 < nat B" by simp
  from div_mod_pos[OF B assms(2)] have k: "p div nat B < length bs" by simp
  then have "bs ! (p div nat B) \<in> set bs" by simp
  with assms(3) have "bs ! (p div nat B) \<noteq> a" by auto
  with k assms(4) show ?thesis
    by (simp add: cell_def nth_append)
qed

lemma cells_snoc:
  fixes lb :: "'a Bucket"
  assumes "0 < B" "n \<le> length bs * nat B" "a \<notin> set bs" "h (last bs) = Some lb"
  shows "cells B (h(a \<mapsto> nb, last bs \<mapsto> lb\<lparr>bnext := x\<rparr>)) (bs @ [a]) n = cells B h bs n"
  unfolding cells_def
proof (rule map_cong[OF refl])
  fix p assume "p \<in> set [0..<n]"
  with assms(2) have "p < length bs * nat B" by simp
  with assms(1) show "cell B (h(a \<mapsto> nb, last bs \<mapsto> lb\<lparr>bnext := x\<rparr>)) (bs @ [a]) p = cell B h bs p"
    using assms(3,4) by (rule cell_snoc)
qed

lemma grow_lock:
  "grow B d (s\<lparr>fLock := k\<rparr>) =
   (case grow B d s of Inl e \<Rightarrow> Inl e | Inr t \<Rightarrow> Inr (t\<lparr>fLock := k\<rparr>))"
  by (simp add: grow_def link_bucket_def newBucket_def Let_def split: option.splits)

text \<open>allocateBucket on a valid state\<close>
lemma allocateBucket_valid:
  fixes d :: 'a
  assumes "valid B s bs" "alloc_ok s"
  shows "\<exists>s' bs'. allocateBucket B d s = Some (Inr s') \<and> valid B s' bs' \<and> alloc_ok s' \<and>
           contents B s' bs' = contents B s bs \<and> 
           (must_grow B (fNextBucketIndex s) (fLastBucket s) \<longrightarrow>
              fNextBucketIndex s' = 0 \<and> bs' \<noteq> []) \<and>
           (\<not> must_grow B (fNextBucketIndex s) (fLastBucket s) \<longrightarrow> s' = s \<and> bs' = bs)"
proof -
  from assms(1) have k: "fLock s = 0" and B: "0 < B" by (simp_all add: valid_def)
  from assms(2) obtain a where a: "fAllocator s = Some a" by (auto simp: alloc_ok_def split: option.splits)
  let ?s1 = "s\<lparr>fLock := 1\<rparr>"
  have acq: "acquire_lock s = Some ?s1" by (rule acquire_lock_free[OF k])
  have unlock: "\<And>t. grow B d s = Inr t \<Longrightarrow> grow B d ?s1 = Inr (t\<lparr>fLock := 1\<rparr>)"
    by (simp add: grow_lock)
  show ?thesis
  proof (cases "bs = []")
    case True
    with assms(1) have v: "valid B s []" by simp
    note g = grow_first[OF v assms(2) a, of d]
    let ?s' = "s\<lparr>fAllocator := Some (Suc a),
       heap := (heap s)(a \<mapsto> \<lparr>bnext = None, bprev = None, items = replicate (nat B) d, destroyed = False\<rparr>),
       fFirstBucket := Some a, fLastBucket := Some a, fNextBucketIndex := 0\<rparr>"
    from unlock[OF g(1)] acq k have al: "allocateBucket B d s = Some (Inr ?s')"
      by (simp add: allocateBucket_def)
    from v True have co: "contents B ?s' [a] = contents B s bs"
      by (simp add: contents_def size_of_def valid_def cells_def)
    from v have mg: "must_grow B (fNextBucketIndex s) (fLastBucket s)"
      by (simp add: must_grow_def valid_def)
    show ?thesis
    proof (intro exI conjI)
      show "allocateBucket B d s = Some (Inr ?s')" by (rule al)
      show "valid B ?s' [a]" by (rule g(2))
      show "alloc_ok ?s'" by (rule g(3))
      show "contents B ?s' [a] = contents B s bs" by (rule co)
    qed (use mg in simp_all)
  next
    case False
    note ne = this
    show ?thesis
    proof (cases "fNextBucketIndex s = B")
      case True
      from ne have "last bs \<in> set bs" by simp
      from valid_in_heap[OF assms(1) this] obtain lb where lb: "heap s (last bs) = Some lb" by blast
      note g = grow_next[OF assms a ne True lb, of d]
      let ?s' = "s\<lparr>fAllocator := Some (Suc a),
       heap := (heap s)(a \<mapsto> \<lparr>bnext = None, bprev = Some (last bs), items = replicate (nat B) d, destroyed = False\<rparr>,
                       last bs \<mapsto> lb\<lparr>bnext := Some a\<rparr>),
       fLastBucket := Some a, fNextBucketIndex := 0\<rparr>"
      from unlock[OF g(1)] acq k have al: "allocateBucket B d s = Some (Inr ?s')"
        by (simp add: allocateBucket_def)
      have co: "contents B ?s' (bs @ [a]) = contents B s bs"
      proof -
        have na: "a \<notin> set bs"
        proof
          assume "a \<in> set bs"
          from valid_in_heap[OF assms(1) this] alloc_ok_fresh[OF assms(2) a] show False by simp
        qed
        from ne have "Suc (length bs - 1) = length bs" by simp
        then have "length bs * nat B = (length bs - 1) * nat B + nat B"
          by (metis mult_Suc add.commute)
        with True have sz: "size_of B ?s' (bs @ [a]) = size_of B s bs" "size_of B s bs = length bs * nat B"
          by (simp_all add: size_of_def)
        from sz(2) have "size_of B s bs \<le> length bs * nat B" by simp
        with B have "cells B ((heap s)(a \<mapsto> \<lparr>bnext = None, bprev = Some (last bs),
               items = replicate (nat B) d, destroyed = False\<rparr>,
               last bs \<mapsto> lb\<lparr>bnext := Some a\<rparr>)) (bs @ [a]) (size_of B s bs) =
             cells B (heap s) bs (size_of B s bs)"
          using na lb by (rule cells_snoc)
        with sz show ?thesis by (simp add: contents_def)
      qed
      from True have mg: "must_grow B (fNextBucketIndex s) (fLastBucket s)"
        by (simp add: must_grow_def)
      show ?thesis
      proof (intro exI conjI)
        show "allocateBucket B d s = Some (Inr ?s')" by (rule al)
        show "valid B ?s' (bs @ [a])" by (rule g(2))
        show "alloc_ok ?s'" by (rule g(3))
        show "contents B ?s' (bs @ [a]) = contents B s bs" by (rule co)
      qed (use mg in simp_all)
    next
      case False
      with ne assms(1) have ng: "\<not> must_grow B (fNextBucketIndex s) (fLastBucket s)"
        by (simp add: must_grow_def valid_def)
      then have "grow B d s = Inr s" by (auto simp: grow_def must_grow_def)
      then have "grow B d ?s1 = Inr ?s1" by (simp add: grow_lock)
      with acq k have "allocateBucket B d s = Some (Inr s)" by (simp add: allocateBucket_def)
      with ng assms show ?thesis by blast
    qed
  qed
qed

lemma alloc_ok_dom:
  assumes "alloc_ok s" "dom (heap s') = dom (heap s)" "fAllocator s' = fAllocator s"
  shows "alloc_ok s'"
  using assms by (auto simp: alloc_ok_def dom_def split: option.splits)

lemma dom_put_cell:
  assumes "hs B h bs" "p < length bs * nat B"
  shows "dom (put_cell B h bs p v) = dom h"
proof -
  from assms(1) have B: "0 < nat B" by (simp add: hs_def)
  from div_mod_pos[OF B assms(2)] have k: "p div nat B < length bs" by simp
  from hs_bucket[OF assms(1) k] obtain b where b: "h (bs ! (p div nat B)) = Some b" by blast
  then show ?thesis by (auto simp: put_cell_def Let_def)
qed

text \<open>append when the last bucket has room\<close>
lemma append_room:
  fixes d v :: 'a
  assumes "valid B s bs" "bs \<noteq> []" "fNextBucketIndex s < B"
  defines "s' \<equiv> s\<lparr>fNextBucketIndex := fNextBucketIndex s + 1,
                   heap := put_cell B (heap s) bs (size_of B s bs) v\<rparr>"
  shows "append B d v s = Some (Inr s')" "valid B s' bs" "contents B s' bs = contents B s bs @ [v]"
    "dom (heap s') = dom (heap s)"
proof -
  let ?n = "size_of B s bs"
  note h = valid_hs[OF assms(1,2)]
  from assms(1) have B: "0 < B" and i0: "0 \<le> fNextBucketIndex s" by (simp_all add: valid_def)
  from assms(1,2) have l: "fLastBucket s = Some (last bs)" by (simp add: valid_def)
  from assms(2) have L: "Suc (length bs - 1) = length bs" by simp
  from i0 assms(3) have "nat (fNextBucketIndex s) < nat B" by linarith
  then have "?n < (length bs - 1) * nat B + nat B" by (simp add: size_of_def)
  also have "\<dots> = Suc (length bs - 1) * nat B" by simp
  finally have n: "?n < length bs * nat B" by (simp only: L)
  have st: "store_item B (heap s) (fLastBucket s) (fNextBucketIndex s) v =
            Inr (put_cell B (heap s) bs ?n v)"
  proof -
    have e: "pos_iter B bs ?n = iterator (fLastBucket s) (fNextBucketIndex s)"
      using end_iter_pos[OF assms(1,2)] by (simp add: end_iter_def)
    from iter_set_pos[OF h n, of v] show ?thesis by (simp add: iter_set_def e)
  qed
  from assms(3) l have ng: "\<not> must_grow B (fNextBucketIndex s) (fLastBucket s)"
    by (simp add: must_grow_def)
  show "append B d v s = Some (Inr s')"
    using ng st by (subst append.simps) (simp add: cas_index_def store_slot_def s'_def Let_def)
  have h': "hs B (put_cell B (heap s) bs ?n v) bs" by (rule hs_put_cell[OF h n])
  from valid_heap_upd[OF assms(1,2) h'] assms(2,3) i0
  show "valid B s' bs" by (simp add: valid_def s'_def)
  have sz: "size_of B s' bs = Suc ?n" using i0 by (simp add: size_of_def s'_def nat_add_distrib)
  have "cells B (put_cell B (heap s) bs ?n v) bs (Suc ?n) = cells B (heap s) bs ?n @ [v]"
  proof -
    have "\<And>q. q < ?n \<Longrightarrow> cell B (put_cell B (heap s) bs ?n v) bs q = cell B (heap s) bs q"
      using cell_put_cell[OF h n] n by simp
    moreover have "cell B (put_cell B (heap s) bs ?n v) bs ?n = v"
      using cell_put_cell[OF h n n] by simp
    ultimately show ?thesis by (simp add: cells_def)
  qed
  with sz show "contents B s' bs = contents B s bs @ [v]"
    by (simp add: contents_def s'_def)
  show "dom (heap s') = dom (heap s)"
    using dom_put_cell[OF h n] by (simp add: s'_def)
qed

lemma append_grow_step:
  fixes d :: 'a
  assumes "must_grow B (fNextBucketIndex s) (fLastBucket s)" "allocateBucket B d s = Some (Inr s1)"
  shows "append B d v s = append B d v s1"
  apply (subst append.simps)
  apply (simp only: Let_def assms if_True option.case sum.case)
  done

lemma append_valid:
  fixes d :: 'a
  assumes "valid B s bs" "alloc_ok s"
  shows "\<exists>s' bs'. append B d v s = Some (Inr s') \<and> valid B s' bs' \<and> alloc_ok s' \<and>
           contents B s' bs' = contents B s bs @ [v] \<and> bs' \<noteq> [] \<and> 0 < fNextBucketIndex s'"
proof (cases "must_grow B (fNextBucketIndex s) (fLastBucket s)")
  case True
  from allocateBucket_valid[OF assms, of d]
  obtain s1 bs1 where x: "allocateBucket B d s = Some (Inr s1) \<and> valid B s1 bs1 \<and> alloc_ok s1 \<and>
           contents B s1 bs1 = contents B s bs \<and>
           (must_grow B (fNextBucketIndex s) (fLastBucket s) \<longrightarrow>
              fNextBucketIndex s1 = 0 \<and> bs1 \<noteq> []) \<and>
           (\<not> must_grow B (fNextBucketIndex s) (fLastBucket s) \<longrightarrow> s1 = s \<and> bs1 = bs)"
    by (elim exE)
  with True have s1: "allocateBucket B d s = Some (Inr s1)" "valid B s1 bs1" "alloc_ok s1"
    "contents B s1 bs1 = contents B s bs" "fNextBucketIndex s1 = 0" "bs1 \<noteq> []" by simp_all
  from s1(2) have B: "0 < B" by (simp add: valid_def)
  with s1(5) have r: "fNextBucketIndex s1 < B" by simp
  note a = append_room(1)[OF s1(2,6) r, where d=d and v=v] append_room(2)[OF s1(2,6) r, where v=v]
    append_room(3)[OF s1(2,6) r, where v=v] append_room(4)[OF s1(2,6) r, where v=v]
  have st: "append B d v s = append B d v s1"
    using True s1(1) by (rule append_grow_step)
  have ok: "alloc_ok (s1\<lparr>fNextBucketIndex := fNextBucketIndex s1 + 1,
                   heap := put_cell B (heap s1) bs1 (size_of B s1 bs1) v\<rparr>)"
  proof (rule alloc_ok_dom[OF s1(3)])
    show "dom (heap (s1\<lparr>fNextBucketIndex := fNextBucketIndex s1 + 1,
                   heap := put_cell B (heap s1) bs1 (size_of B s1 bs1) v\<rparr>)) = dom (heap s1)"
      by (rule a(4))
  qed simp
  have ap: "append B d v s = Some (Inr (s1\<lparr>fNextBucketIndex := fNextBucketIndex s1 + 1,
                   heap := put_cell B (heap s1) bs1 (size_of B s1 bs1) v\<rparr>))"
    by (rule trans[OF st a(1)])
  show ?thesis
  proof (intro exI conjI)
    show "append B d v s = Some (Inr (s1\<lparr>fNextBucketIndex := fNextBucketIndex s1 + 1,
                   heap := put_cell B (heap s1) bs1 (size_of B s1 bs1) v\<rparr>))" by (rule ap)
    show "valid B (s1\<lparr>fNextBucketIndex := fNextBucketIndex s1 + 1,
                   heap := put_cell B (heap s1) bs1 (size_of B s1 bs1) v\<rparr>) bs1" by (rule a(2))
    show "alloc_ok (s1\<lparr>fNextBucketIndex := fNextBucketIndex s1 + 1,
                   heap := put_cell B (heap s1) bs1 (size_of B s1 bs1) v\<rparr>)" by (rule ok)
    show "contents B (s1\<lparr>fNextBucketIndex := fNextBucketIndex s1 + 1,
                   heap := put_cell B (heap s1) bs1 (size_of B s1 bs1) v\<rparr>) bs1 = contents B s bs @ [v]"
      using a(3) s1(4) by simp
    show "bs1 \<noteq> []" by (rule s1(6))
    show "0 < fNextBucketIndex (s1\<lparr>fNextBucketIndex := fNextBucketIndex s1 + 1,
                   heap := put_cell B (heap s1) bs1 (size_of B s1 bs1) v\<rparr>)"
      using s1(5) by simp
  qed
next
  case False
  with assms(1) have ne: "bs \<noteq> []" and r: "fNextBucketIndex s < B"
    by (auto simp: must_grow_def valid_def)
  note a = append_room(1)[OF assms(1) ne r, where d=d and v=v] append_room(2)[OF assms(1) ne r, where v=v]
    append_room(3)[OF assms(1) ne r, where v=v] append_room(4)[OF assms(1) ne r, where v=v]
  from assms(1) have i0: "0 \<le> fNextBucketIndex s" by (simp add: valid_def)
  have ok: "alloc_ok (s\<lparr>fNextBucketIndex := fNextBucketIndex s + 1,
                   heap := put_cell B (heap s) bs (size_of B s bs) v\<rparr>)"
  proof (rule alloc_ok_dom[OF assms(2)])
    show "dom (heap (s\<lparr>fNextBucketIndex := fNextBucketIndex s + 1,
                   heap := put_cell B (heap s) bs (size_of B s bs) v\<rparr>)) = dom (heap s)"
      by (rule a(4))
  qed simp
  show ?thesis
  proof (intro exI conjI)
    show "append B d v s = Some (Inr (s\<lparr>fNextBucketIndex := fNextBucketIndex s + 1,
                   heap := put_cell B (heap s) bs (size_of B s bs) v\<rparr>))" by (rule a(1))
    show "valid B (s\<lparr>fNextBucketIndex := fNextBucketIndex s + 1,
                   heap := put_cell B (heap s) bs (size_of B s bs) v\<rparr>) bs" by (rule a(2))
    show "alloc_ok (s\<lparr>fNextBucketIndex := fNextBucketIndex s + 1,
                   heap := put_cell B (heap s) bs (size_of B s bs) v\<rparr>)" by (rule ok)
    show "contents B (s\<lparr>fNextBucketIndex := fNextBucketIndex s + 1,
                   heap := put_cell B (heap s) bs (size_of B s bs) v\<rparr>) bs = contents B s bs @ [v]"
      by (rule a(3))
    show "bs \<noteq> []" by (rule ne)
    show "0 < fNextBucketIndex (s\<lparr>fNextBucketIndex := fNextBucketIndex s + 1,
                   heap := put_cell B (heap s) bs (size_of B s bs) v\<rparr>)"
      using i0 by simp
  qed
qed

lemma destroy_buckets_chain:
  "chain h pr p bs \<Longrightarrow>
   \<exists>h'. destroy_buckets h p = Some (Inr h') \<and>
        (\<forall>x. h' x = (if x \<in> set bs then map_option (\<lambda>b. b\<lparr>destroyed := True\<rparr>) (h x) else h x))"
proof (induction bs arbitrary: h pr p)
  case Nil
  then show ?case by (subst destroy_buckets.simps) simp
next
  case (Cons a as)
  from Cons.prems obtain b where b: "p = Some a" "h a = Some b" "chain h (Some a) (bnext b) as"
    by (auto split: option.splits)
  let ?h1 = "h(a \<mapsto> b\<lparr>destroyed := True\<rparr>)"
  have "chain ?h1 (Some a) (bnext b) as"
    using b(2,3) chain_upd_payload[where h=h and a=a and b=b and b'="b\<lparr>destroyed := True\<rparr>"]
    by simp
  from Cons.IH[OF this] obtain h' where h': "destroy_buckets ?h1 (bnext b) = Some (Inr h')"
    "\<forall>x. h' x = (if x \<in> set as then map_option (\<lambda>b. b\<lparr>destroyed := True\<rparr>) (?h1 x) else ?h1 x)"
    by blast
  have "destroy_buckets h p = Some (Inr h')"
    using b(1,2) h'(1) by (subst destroy_buckets.simps) simp
  moreover have "\<forall>x. h' x = (if x \<in> set (a # as) then map_option (\<lambda>b. b\<lparr>destroyed := True\<rparr>) (h x) else h x)"
    using h'(2) b(2) by auto
  ultimately show ?case by blast
qed

lemma reset_valid:
  assumes "valid B s bs"
  shows "\<exists>h. reset s = Some (Inr (s\<lparr>heap := h, fFirstBucket := None, fLastBucket := None,
                                    fNextBucketIndex := 0\<rparr>)) \<and>
             dom h = dom (heap s) \<and>
             (\<forall>x. h x = (if x \<in> set bs then map_option (\<lambda>b. b\<lparr>destroyed := True\<rparr>) (heap s x) else heap s x))"
proof -
  from assms have "chain (heap s) None (fFirstBucket s) bs" by (simp add: valid_def)
  from destroy_buckets_chain[OF this] obtain h where h: "destroy_buckets (heap s) (fFirstBucket s) = Some (Inr h)"
    "\<forall>x. h x = (if x \<in> set bs then map_option (\<lambda>b. b\<lparr>destroyed := True\<rparr>) (heap s x) else heap s x)"
    by blast
  from h(2) have "dom h = dom (heap s)" by (auto simp: dom_def)
  with h show ?thesis by (auto simp: reset_def)
qed

lemma valid_after_reset:
  assumes "valid B s bs"
  shows "valid B (s\<lparr>heap := h, fFirstBucket := None, fLastBucket := None, fNextBucketIndex := 0\<rparr>) []"
  using assms by (simp add: valid_def full_buckets_def)

subsection \<open>Sequences of operations\<close>

lemma valid_init: "0 < B \<Longrightarrow> valid B (SliceArray_init :: 'a SliceArray) []"
  by (simp add: valid_def SliceArray_init_def full_buckets_def)

lemma valid_init_allocator:
  "0 < B \<Longrightarrow> valid B (setAllocator a (SliceArray_init :: 'a SliceArray)) []"
  by (simp add: valid_def SliceArray_init_def setAllocator_def full_buckets_def)

lemma alloc_ok_init: "alloc_ok (setAllocator a SliceArray_init)"
  by (simp add: alloc_ok_def SliceArray_init_def setAllocator_def)

lemma contents_Nil: "valid B s [] \<Longrightarrow> contents B s [] = []"
  by (simp add: contents_def size_of_def cells_def valid_def)

lemma appends_valid:
  fixes d :: 'a
  assumes "valid B s bs" "alloc_ok s" "bs \<noteq> [] \<longrightarrow> 0 < fNextBucketIndex s"
  shows "\<exists>s' bs'. appends B d vs s = Some (Inr s') \<and> valid B s' bs' \<and> alloc_ok s' \<and>
           contents B s' bs' = contents B s bs @ vs \<and>
           (bs' \<noteq> [] \<longrightarrow> 0 < fNextBucketIndex s') \<and> (vs = [] \<longrightarrow> s' = s)"
  using assms
proof (induction vs arbitrary: s bs)
  case Nil
  then show ?case by auto
next
  case (Cons v vs)
  from append_valid[OF Cons.prems(1,2), of d v]
  obtain s1 bs1 where s1: "append B d v s = Some (Inr s1)" "valid B s1 bs1" "alloc_ok s1"
    "contents B s1 bs1 = contents B s bs @ [v]" "0 < fNextBucketIndex s1"
    by (elim exE conjE)
  from s1(5) have "bs1 \<noteq> [] \<longrightarrow> 0 < fNextBucketIndex s1" by simp
  from Cons.IH[OF s1(2,3) this]
  obtain s' bs' where s': "appends B d vs s1 = Some (Inr s')" "valid B s' bs'" "alloc_ok s'"
    "contents B s' bs' = contents B s1 bs1 @ vs" "bs' \<noteq> [] \<longrightarrow> 0 < fNextBucketIndex s'"
    by (elim exE conjE)
  show ?case
  proof (intro exI conjI)
    show "appends B d (v # vs) s = Some (Inr s')" using s1(1) s'(1) by simp
    show "valid B s' bs'" by (rule s'(2))
    show "alloc_ok s'" by (rule s'(3))
    show "contents B s' bs' = contents B s bs @ v # vs" using s'(4) s1(4) by simp
    show "bs' \<noteq> [] \<longrightarrow> 0 < fNextBucketIndex s'" by (rule s'(5))
  qed simp
qed

lemma appends_init:
  fixes d :: 'a
  assumes "0 < B"
  shows "\<exists>s bs. appends B d vs (setAllocator a SliceArray_init) = Some (Inr s) \<and> valid B s bs \<and>
           alloc_ok s \<and> contents B s bs = vs \<and> (bs \<noteq> [] \<longrightarrow> 0 < fNextBucketIndex s) \<and>
           (vs = [] \<longrightarrow> s = setAllocator a SliceArray_init)"
proof -
  let ?i = "setAllocator a SliceArray_init :: 'a SliceArray"
  have v: "valid B ?i []" by (rule valid_init_allocator[OF assms])
  have ok: "alloc_ok ?i" by (rule alloc_ok_init)
  have "([]::addr list) \<noteq> [] \<longrightarrow> 0 < fNextBucketIndex ?i" by simp
  from appends_valid[OF v ok this, of d vs]
  obtain s bs where x: "appends B d vs ?i = Some (Inr s)" "valid B s bs" "alloc_ok s"
    "contents B s bs = contents B ?i [] @ vs" "bs \<noteq> [] \<longrightarrow> 0 < fNextBucketIndex s"
    "vs = [] \<longrightarrow> s = ?i"
    by (elim exE conjE)
  from x(4) contents_Nil[OF v] have "contents B s bs = vs" by simp
  with x show ?thesis by blast
qed

lemma tight_begin_end:
  assumes "valid B s bs" "bs \<noteq> []" "0 < fNextBucketIndex s"
  shows "begin_iter s \<noteq> end_iter s"
proof -
  from assms(1) have B: "0 < B" by (simp add: valid_def)
  from valid_first[OF assms(1)] assms(2) have f: "fFirstBucket s = Some (hd bs)" by simp
  from assms(3) have "0 < size_of B s bs" by (simp add: size_of_def)
  moreover have "0 \<le> length bs * nat B" by simp
  ultimately have "pos_iter B bs 0 \<noteq> pos_iter B bs (size_of B s bs)"
    using pos_iter_inj[OF valid_hs[OF assms(1,2)], of 0 "size_of B s bs"]
      size_of_le[OF assms(1,2)] by auto
  then show ?thesis
    by (simp add: begin_iter_pos[OF B assms(2) f] end_iter_pos[OF assms(1,2)])
qed

lemma grow_no_allocator:
  fixes d :: 'a
  assumes "fAllocator s = None" "fLastBucket s = None"
  shows "grow B d s = Inl NullDereference"
  using assms by (simp add: grow_def link_bucket_def newBucket_def)

lemma allocateBucket_no_allocator:
  fixes d :: 'a
  assumes "fAllocator s = None" "fLastBucket s = None" "fLock s = 0"
  shows "allocateBucket B d s = Some (Inl NullDereference)"
  using grow_no_allocator[of "s\<lparr>fLock := 1\<rparr>" B d] assms
  by (simp add: allocateBucket_def acquire_lock_free)

lemma append_no_allocator:
  fixes d :: 'a
  assumes "fAllocator s = None" "fLastBucket s = None" "fLock s = 0"
  shows "append B d v s = Some (Inl NullDereference)"
  apply (subst append.simps)
  apply (simp only: Let_def assms must_grow_def allocateBucket_no_allocator[OF assms]
      simp_thms if_True option.case sum.case)
  done

lemma append_valid_result:
  fixes d :: 'a
  assumes "valid B s bs" "alloc_ok s" "append B d v s = Some (Inr s')"
  shows "\<exists>bs'. valid B s' bs' \<and> alloc_ok s' \<and> contents B s' bs' = contents B s bs @ [v]"
proof -
  from append_valid[OF assms(1,2), of d v]
  obtain s1 bs1 where s1: "append B d v s = Some (Inr s1)" "valid B s1 bs1" "alloc_ok s1"
    "contents B s1 bs1 = contents B s bs @ [v]"
    by (elim exE conjE)
  from s1(1) assms(3) have "s1 = s'" by simp
  with s1(2,3,4) show ?thesis by (intro exI[of _ bs1]) simp
qed

lemma allocateBucket_valid_result:
  fixes d :: 'a
  assumes "valid B s bs" "alloc_ok s" "allocateBucket B d s = Some (Inr s')"
  shows "\<exists>bs'. valid B s' bs' \<and> alloc_ok s'"
proof -
  from allocateBucket_valid[OF assms(1,2), of d]
  obtain s1 bs1 where s1: "allocateBucket B d s = Some (Inr s1)" "valid B s1 bs1" "alloc_ok s1"
    by (elim exE conjE)
  from s1(1) assms(3) have "s1 = s'" by simp
  with s1(2,3) show ?thesis by (intro exI[of _ bs1]) simp
qed

lemma reset_valid_result:
  assumes "valid B s bs" "reset s = Some (Inr s')"
  shows "valid B s' [] \<and> fAllocator s' = fAllocator s \<and> dom (heap s') = dom (heap s) \<and>
         fFirstBucket s' = None \<and> fLastBucket s' = None \<and> fNextBucketIndex s' = 0"
proof -
  from reset_valid[OF assms(1)]
  obtain h where h: "reset s = Some (Inr (s\<lparr>heap := h, fFirstBucket := None, fLastBucket := None,
                              fNextBucketIndex := 0\<rparr>))" "dom h = dom (heap s)"
    by (elim exE conjE)
  from h(1) assms(2) have s': "s' = s\<lparr>heap := h, fFirstBucket := None, fLastBucket := None,
                              fNextBucketIndex := 0\<rparr>" by simp
  have "valid B s' []" unfolding s' by (rule valid_after_reset[OF assms(1)])
  with h(2) show ?thesis by (simp add: s')
qed

lemma alloc_ok_allocator: "alloc_ok s \<Longrightarrow> fAllocator s \<noteq> None"
  by (auto simp: alloc_ok_def split: option.splits)

lemma reachable_valid:
  fixes d :: 'a
  assumes "reachable B d s" "0 < B"
  shows "\<exists>bs. valid B s bs \<and> (fAllocator s = None \<longrightarrow> bs = []) \<and>
              (fAllocator s \<noteq> None \<longrightarrow> alloc_ok s)"
  using assms
proof (induction rule: reachable.induct)
  case new
  have "valid B (SliceArray_init :: 'a SliceArray) []" by (rule valid_init[OF new])
  then show ?case
    by (intro exI[of _ "[]"]) (simp add: SliceArray_init_def)
next
  case (new_allocator a)
  have "valid B (setAllocator a SliceArray_init :: 'a SliceArray) []"
    by (rule valid_init_allocator[OF new_allocator])
  moreover have "alloc_ok (setAllocator a SliceArray_init :: 'a SliceArray)"
    by (rule alloc_ok_init)
  ultimately show ?case
    by (intro exI[of _ "[]"]) simp
next
  case (after_append s v s')
  from after_append.IH[OF after_append.prems] obtain bs where bs: "valid B s bs"
    "fAllocator s = None \<longrightarrow> bs = []" "fAllocator s \<noteq> None \<longrightarrow> alloc_ok s"
    by (elim exE conjE)
  show ?case
  proof (cases "fAllocator s")
    case None
    with bs have "valid B s []" by simp
    then have "fLastBucket s = None" "fLock s = 0" by (simp_all add: valid_def)
    from append_no_allocator[OF None this, of B d v] after_append.hyps(2) show ?thesis by simp
  next
    case (Some a)
    with bs(3) have ok: "alloc_ok s" by simp
    from append_valid_result[OF bs(1) ok after_append.hyps(2)]
    obtain bs' where b': "valid B s' bs'" "alloc_ok s'" by (elim exE conjE)
    from alloc_ok_allocator[OF b'(2)] b' show ?thesis by (intro exI[of _ bs']) auto
  qed
next
  case (after_growth s s')
  from after_growth.IH[OF after_growth.prems] obtain bs where bs: "valid B s bs"
    "fAllocator s = None \<longrightarrow> bs = []" "fAllocator s \<noteq> None \<longrightarrow> alloc_ok s"
    by (elim exE conjE)
  show ?case
  proof (cases "fAllocator s")
    case None
    with bs have "valid B s []" by simp
    then have "fLastBucket s = None" "fLock s = 0" by (simp_all add: valid_def)
    from allocateBucket_no_allocator[OF None this, of B d] after_growth.hyps(2) show ?thesis by simp
  next
    case (Some a)
    with bs(3) have ok: "alloc_ok s" by simp
    from allocateBucket_valid_result[OF bs(1) ok after_growth.hyps(2)]
    obtain bs' where b': "valid B s' bs'" "alloc_ok s'" by (elim exE conjE)
    from alloc_ok_allocator[OF b'(2)] b' show ?thesis by (intro exI[of _ bs']) auto
  qed
next
  case (after_reset s s')
  from after_reset.IH[OF after_reset.prems] obtain bs where bs: "valid B s bs"
    "fAllocator s \<noteq> None \<longrightarrow> alloc_ok s"
    by (elim exE conjE)
  from reset_valid_result[OF bs(1) after_reset.hyps(2)]
  have r: "valid B s' []" "fAllocator s' = fAllocator s" "dom (heap s') = dom (heap s)"
    by simp_all
  have "fAllocator s' \<noteq> None \<longrightarrow> alloc_ok s'"
  proof
    assume "fAllocator s' \<noteq> None"
    with bs(2) r(2) have "alloc_ok s" by simp
    then show "alloc_ok s'" using r(3,2) by (rule alloc_ok_dom)
  qed
  with r(1) show ?case by (intro exI[of _ "[]"]) simp
qed

lemma iter_advance_pos:
  assumes "hs B h bs" "p + k \<le> length bs * nat B"
  shows "iter_advance B h (pos_iter B bs p) k = Inr (pos_iter B bs (p + k))"
  using assms(2)
proof (induction k arbitrary: p)
  case 0
  then show ?case by simp
next
  case (Suc k)
  then have p: "p < length bs * nat B" and q: "Suc p + k \<le> length bs * nat B" by simp_all
  from iter_inc_pos[OF assms(1) p] Suc.IH[OF q] show ?case by simp
qed

subsection \<open>The log does not change what sort computes\<close>

lemma iter_get_log_erase: "map_sum id fst (iter_get_log B h it lg) = iter_get B h it"
  by (simp add: iter_get_log_def split: sum.splits)

lemma iter_set_log_erase: "map_sum id fst (iter_set_log B h it v lg) = iter_set B h it v"
  by (simp add: iter_set_log_def split: sum.splits)

lemma iter_get_log_cases:
  "(\<exists>e. iter_get_log B h it lg = Inl e \<and> iter_get B h it = Inl e) \<or>
   (\<exists>x. iter_get_log B h it lg = Inr (x, lg @ [it]) \<and> iter_get B h it = Inr x)"
  by (simp add: iter_get_log_def split: sum.splits)

lemma iter_set_log_cases:
  "(\<exists>e. iter_set_log B h it v lg = Inl e \<and> iter_set B h it v = Inl e) \<or>
   (\<exists>h1. iter_set_log B h it v lg = Inr (h1, lg @ [it]) \<and> iter_set B h it v = Inr h1)"
  by (simp add: iter_set_log_def split: sum.splits)

lemma swap_with_prev_log_erase:
  "map_sum id fst (swap_with_prev_log B h j lg) = swap_with_prev B h j"
  by (simp add: swap_with_prev_log_def swap_with_prev_def iter_get_log_def iter_set_log_def
      split: sum.splits)

lemma out_of_order_log_erase:
  "map_sum id fst (out_of_order_log B gt s j lg) = out_of_order B gt s j"
  by (simp add: out_of_order_log_def out_of_order_def iter_get_log_def split: sum.splits)

lemma erase_Inl: "map_sum id fst r = Inl e \<longleftrightarrow> r = Inl e"
  by (cases r) auto

lemma erase_Inr: "map_sum id fst r = Inr x \<longleftrightarrow> (\<exists>lg. r = Inr (x, lg))"
  by (cases r) auto

lemma sort_inner_log_sound:
  assumes "sort_inner_log B0 gt0 s0 j0 lg0 = Some r0"
  shows "sort_inner B0 gt0 s0 j0 = Some (map_sum id fst r0)"
proof (rule sort_inner_log.raw_induct
    [where P = "\<lambda>B gt s j lg r. sort_inner B gt s j = Some (map_sum id fst r)", OF _ assms])
  fix f :: "int \<Rightarrow> ('a \<Rightarrow> 'a \<Rightarrow> bool) \<Rightarrow> 'a SliceArray \<Rightarrow> iterator \<Rightarrow> iterator list \<Rightarrow>
            (fault + 'a SliceArray \<times> iterator list) option"
    and B gt s j lg r
  assume IH: "\<And>B gt s j lg y. f B gt s j lg = Some y \<Longrightarrow>
                sort_inner B gt s j = Some (map_sum id fst y)"
    and step: "(case out_of_order_log B gt s j (lg @ [j]) of
        Inl e \<Rightarrow> Some (Inl e)
      | Inr (c, lg1) \<Rightarrow>
          if c then
            (case swap_with_prev_log B (heap s) j lg1 of
               Inl e \<Rightarrow> Some (Inl e)
             | Inr (h, lg2) \<Rightarrow>
                 (case iter_dec B h j of
                    Inl e \<Rightarrow> Some (Inl e)
                  | Inr j1 \<Rightarrow> f B gt (s\<lparr>heap := h\<rparr>) j1 lg2))
          else Some (Inr (s, lg1))) = Some r"
  note oo = out_of_order_log_erase[of B gt s j "lg @ [j]"]
  show "sort_inner B gt s j = Some (map_sum id fst r)"
  proof (cases "out_of_order_log B gt s j (lg @ [j])")
    case (Inl e)
    with oo have "out_of_order B gt s j = Inl e" by simp
    with Inl step show ?thesis by (subst sort_inner.simps) auto
  next
    case (Inr cl)
    obtain c lg1 where cl: "cl = (c, lg1)" by (cases cl)
    with Inr oo have o: "out_of_order B gt s j = Inr c" by simp
    show ?thesis
    proof (cases c)
      case False
      with Inr cl o step show ?thesis by (subst sort_inner.simps) auto
    next
      case True
      note sw = swap_with_prev_log_erase[of B "heap s" j lg1]
      show ?thesis
      proof (cases "swap_with_prev_log B (heap s) j lg1")
        case (Inl e)
        with sw have "swap_with_prev B (heap s) j = Inl e" by simp
        with Inl Inr cl o True step show ?thesis by (subst sort_inner.simps) auto
      next
        case (Inr hl)
        obtain h lg2 where hl: "hl = (h, lg2)" by (cases hl)
        with Inr sw have w: "swap_with_prev B (heap s) j = Inr h" by simp
        show ?thesis
        proof (cases "iter_dec B h j")
          case (Inl e)
          with Inr hl w \<open>out_of_order_log B gt s j (lg @ [j]) = Inr cl\<close> cl o True step
          show ?thesis by (subst sort_inner.simps) auto
        next
          case (Inr j1)
          with \<open>swap_with_prev_log B (heap s) j lg1 = Inr hl\<close> hl
            \<open>out_of_order_log B gt s j (lg @ [j]) = Inr cl\<close> cl True step
          have "f B gt (s\<lparr>heap := h\<rparr>) j1 lg2 = Some r" by simp
          from IH[OF this] Inr w o True show ?thesis
            by (subst sort_inner.simps) simp
        qed
      qed
    qed
  qed
qed

lemma sort_inner_log_complete_all:
  assumes "sort_inner B0 gt0 s0 j0 = Some r0"
  shows "\<forall>lg. \<exists>r'. sort_inner_log B0 gt0 s0 j0 lg = Some r' \<and> map_sum id fst r' = r0"
proof (rule sort_inner.raw_induct
    [where P = "\<lambda>B gt s j r. \<forall>lg. \<exists>r'. sort_inner_log B gt s j lg = Some r' \<and>
                  map_sum id fst r' = r", OF _ assms], rule allI)
  fix f :: "int \<Rightarrow> ('a \<Rightarrow> 'a \<Rightarrow> bool) \<Rightarrow> 'a SliceArray \<Rightarrow> iterator \<Rightarrow>
            (fault + 'a SliceArray) option"
    and B gt s j r lg
  assume IH: "\<And>B gt s j y. f B gt s j = Some y \<Longrightarrow>
                \<forall>lg. \<exists>r'. sort_inner_log B gt s j lg = Some r' \<and> map_sum id fst r' = y"
    and step: "(case out_of_order B gt s j of
        Inl e \<Rightarrow> Some (Inl e)
      | Inr c \<Rightarrow>
          if c then
            (case swap_with_prev B (heap s) j of
               Inl e \<Rightarrow> Some (Inl e)
             | Inr h \<Rightarrow>
                 (case iter_dec B h j of
                    Inl e \<Rightarrow> Some (Inl e)
                  | Inr j1 \<Rightarrow> f B gt (s\<lparr>heap := h\<rparr>) j1))
          else Some (Inr s)) = Some r"
  note oo = out_of_order_log_erase[of B gt s j "lg @ [j]"]
  show "\<exists>r'. sort_inner_log B gt s j lg = Some r' \<and> map_sum id fst r' = r"
  proof (cases "out_of_order_log B gt s j (lg @ [j])")
    case (Inl e)
    with oo have "out_of_order B gt s j = Inl e" by simp
    with Inl step show ?thesis by (subst sort_inner_log.simps) auto
  next
    case (Inr cl)
    obtain c lg1 where cl: "cl = (c, lg1)" by (cases cl)
    with Inr oo have o: "out_of_order B gt s j = Inr c" by simp
    show ?thesis
    proof (cases c)
      case False
      with Inr cl o step show ?thesis by (subst sort_inner_log.simps) auto
    next
      case True
      note sw = swap_with_prev_log_erase[of B "heap s" j lg1]
      show ?thesis
      proof (cases "swap_with_prev_log B (heap s) j lg1")
        case (Inl e)
        with sw have "swap_with_prev B (heap s) j = Inl e" by simp
        with Inl Inr cl o True step show ?thesis by (subst sort_inner_log.simps) auto
      next
        case (Inr hl)
        obtain h lg2 where hl: "hl = (h, lg2)" by (cases hl)
        with Inr sw have w: "swap_with_prev B (heap s) j = Inr h" by simp
        show ?thesis
        proof (cases "iter_dec B h j")
          case (Inl e)
          with Inr hl w \<open>out_of_order_log B gt s j (lg @ [j]) = Inr cl\<close> cl o True step
          show ?thesis by (subst sort_inner_log.simps) auto
        next
          case (Inr j1)
          with w o True step have "f B gt (s\<lparr>heap := h\<rparr>) j1 = Some r" by simp
          from IH[OF this, THEN spec, of lg2]
          obtain r' where "sort_inner_log B gt (s\<lparr>heap := h\<rparr>) j1 lg2 = Some r'"
            "map_sum id fst r' = r" by (elim exE conjE)
          with Inr \<open>swap_with_prev_log B (heap s) j lg1 = Inr hl\<close> hl
            \<open>out_of_order_log B gt s j (lg @ [j]) = Inr cl\<close> cl True
          show ?thesis by (subst sort_inner_log.simps) simp
        qed
      qed
    qed
  qed
qed

lemma sort_inner_log_complete:
  assumes "sort_inner B gt s j = Some r"
  shows "\<exists>r'. sort_inner_log B gt s j lg = Some r' \<and> map_sum id fst r' = r"
  using sort_inner_log_complete_all[OF assms] by (rule spec)

lemma sort_inner_log_erase:
  "drop_log (sort_inner_log B gt s j lg) = sort_inner B gt s j"
proof (cases "sort_inner_log B gt s j lg")
  case None
  have "sort_inner B gt s j = None"
  proof (cases "sort_inner B gt s j")
    case None
    then show ?thesis .
  next
    case (Some r)
    from sort_inner_log_complete[OF this, of lg] None show ?thesis by simp
  qed
  with None show ?thesis by (simp add: drop_log_def)
next
  case (Some r)
  from sort_inner_log_sound[OF this] Some show ?thesis by (simp add: drop_log_def)
qed

lemma sort_outer_log_sound:
  assumes "sort_outer_log B0 gt0 e0 s0 i0 lg0 = Some r0"
  shows "sort_outer B0 gt0 e0 s0 i0 = Some (map_sum id fst r0)"
proof (rule sort_outer_log.raw_induct
    [where P = "\<lambda>B gt e s i lg r. sort_outer B gt e s i = Some (map_sum id fst r)", OF _ assms])
  fix f :: "int \<Rightarrow> ('a \<Rightarrow> 'a \<Rightarrow> bool) \<Rightarrow> iterator \<Rightarrow> 'a SliceArray \<Rightarrow> iterator \<Rightarrow>
            iterator list \<Rightarrow> (fault + 'a SliceArray \<times> iterator list) option"
    and B gt e s i lg r
  assume IH: "\<And>B gt e s i lg y. f B gt e s i lg = Some y \<Longrightarrow>
                sort_outer B gt e s i = Some (map_sum id fst y)"
    and step: "(if i \<noteq> e then
        (case sort_inner_log B gt s i lg of
           None \<Rightarrow> None
         | Some (Inl er) \<Rightarrow> Some (Inl er)
         | Some (Inr (s1, lg1)) \<Rightarrow>
             (case iter_inc B (heap s1) i of
                Inl er \<Rightarrow> Some (Inl er)
              | Inr i1 \<Rightarrow> f B gt e s1 i1 lg1))
      else Some (Inr (s, lg))) = Some r"
  show "sort_outer B gt e s i = Some (map_sum id fst r)"
  proof (cases "i = e")
    case True
    with step show ?thesis by (subst sort_outer.simps) auto
  next
    case False
    with step obtain x where x: "sort_inner_log B gt s i lg = Some x"
      by (cases "sort_inner_log B gt s i lg") auto
    note si = sort_inner_log_sound[OF x]
    show ?thesis
    proof (cases x)
      case (Inl er)
      with x si step False show ?thesis by (subst sort_outer.simps) auto
    next
      case (Inr sl)
      obtain s1 lg1 where sl: "sl = (s1, lg1)" by (cases sl)
      with Inr si have si': "sort_inner B gt s i = Some (Inr s1)" by simp
      show ?thesis
      proof (cases "iter_inc B (heap s1) i")
        case (Inl er)
        with x Inr sl si' step False show ?thesis by (subst sort_outer.simps) auto
      next
        case (Inr i1)
        with x \<open>x = Inr sl\<close> sl step False have "f B gt e s1 i1 lg1 = Some r" by simp
        from IH[OF this] Inr si' False show ?thesis by (subst sort_outer.simps) simp
      qed
    qed
  qed
qed

lemma sort_outer_log_complete_all:
  assumes "sort_outer B0 gt0 e0 s0 i0 = Some r0"
  shows "\<forall>lg. \<exists>r'. sort_outer_log B0 gt0 e0 s0 i0 lg = Some r' \<and> map_sum id fst r' = r0"
proof (rule sort_outer.raw_induct
    [where P = "\<lambda>B gt e s i r. \<forall>lg. \<exists>r'. sort_outer_log B gt e s i lg = Some r' \<and>
                  map_sum id fst r' = r", OF _ assms], rule allI)
  fix f :: "int \<Rightarrow> ('a \<Rightarrow> 'a \<Rightarrow> bool) \<Rightarrow> iterator \<Rightarrow> 'a SliceArray \<Rightarrow> iterator \<Rightarrow>
            (fault + 'a SliceArray) option"
    and B gt e s i r lg
  assume IH: "\<And>B gt e s i y. f B gt e s i = Some y \<Longrightarrow>
                \<forall>lg. \<exists>r'. sort_outer_log B gt e s i lg = Some r' \<and> map_sum id fst r' = y"
    and step: "(if i \<noteq> e then
        (case sort_inner B gt s i of
           None \<Rightarrow> None
         | Some (Inl er) \<Rightarrow> Some (Inl er)
         | Some (Inr s1) \<Rightarrow>
             (case iter_inc B (heap s1) i of
                Inl er \<Rightarrow> Some (Inl er)
              | Inr i1 \<Rightarrow> f B gt e s1 i1))
      else Some (Inr s)) = Some r"
  show "\<exists>r'. sort_outer_log B gt e s i lg = Some r' \<and> map_sum id fst r' = r"
  proof (cases "i = e")
    case True
    with step show ?thesis by (subst sort_outer_log.simps) auto
  next
    case False
    with step obtain x where x: "sort_inner B gt s i = Some x"
      by (cases "sort_inner B gt s i") auto
    from sort_inner_log_complete[OF x, of lg]
    obtain x' where x': "sort_inner_log B gt s i lg = Some x'" "map_sum id fst x' = x"
      by (elim exE conjE)
    show ?thesis
    proof (cases x')
      case (Inl er)
      with x x' step False show ?thesis by (subst sort_outer_log.simps) auto
    next
      case (Inr sl)
      obtain s1 lg1 where sl: "sl = (s1, lg1)" by (cases sl)
      with Inr x'(2) have xs: "x = Inr s1" by auto
      show ?thesis
      proof (cases "iter_inc B (heap s1) i")
        case (Inl er)
        with x xs x'(1) \<open>x' = Inr sl\<close> sl step False show ?thesis
          by (subst sort_outer_log.simps) auto
      next
        case (Inr i1)
        with x xs step False have "f B gt e s1 i1 = Some r" by simp
        from IH[OF this, THEN spec, of lg1]
        obtain r' where "sort_outer_log B gt e s1 i1 lg1 = Some r'" "map_sum id fst r' = r"
          by (elim exE conjE)
        with Inr x'(1) \<open>x' = Inr sl\<close> sl False show ?thesis
          by (subst sort_outer_log.simps) simp
      qed
    qed
  qed
qed

lemma sort_outer_log_erase:
  "drop_log (sort_outer_log B gt e s i lg) = sort_outer B gt e s i"
proof (cases "sort_outer_log B gt e s i lg")
  case None
  have "sort_outer B gt e s i = None"
  proof (cases "sort_outer B gt e s i")
    case None
    then show ?thesis .
  next
    case (Some r)
    from sort_outer_log_complete_all[OF this, THEN spec, of lg] None show ?thesis by simp
  qed
  with None show ?thesis by (simp add: drop_log_def)
next
  case (Some r)
  from sort_outer_log_sound[OF this] Some show ?thesis by (simp add: drop_log_def)
qed

text \<open>For every state, \<open>sort\<close> is \<open>sort_log\<close> without the log.\<close>

lemma sort_log_erase: "drop_log (sort_log B gt s) = sort B gt s"
proof (cases "fFirstBucket s = None")
  case True
  then show ?thesis by (simp add: sort_log_def sort_def drop_log_def)
next
  case False
  show ?thesis
  proof (cases "iter_next B (heap s) (begin_iter s)")
    case (Inl e)
    with False show ?thesis by (simp add: sort_log_def sort_def drop_log_def)
  next
    case (Inr i)
    with False sort_outer_log_erase[of B gt "end_iter s" s i "[]"] show ?thesis
      by (auto simp: sort_log_def sort_def)
  qed
qed

subsection \<open>The log on valid states\<close>

lemma iter_get_log_pos:
  assumes "hs B h bs" "p < length bs * nat B"
  shows "iter_get_log B h (pos_iter B bs p) lg = Inr (cell B h bs p, lg @ [pos_iter B bs p])"
  by (simp add: iter_get_log_def iter_get_pos[OF assms])

lemma iter_set_log_pos:
  assumes "hs B h bs" "p < length bs * nat B"
  shows "iter_set_log B h (pos_iter B bs p) v lg =
         Inr (put_cell B h bs p v, lg @ [pos_iter B bs p])"
  by (simp add: iter_set_log_def iter_set_pos[OF assms])

lemma swap_with_prev_log_pos:
  assumes "hs B h bs" "Suc p < length bs * nat B"
  shows "swap_with_prev_log B h (pos_iter B bs (Suc p)) lg =
         Inr (put_cell B (put_cell B h bs (Suc p) (cell B h bs p)) bs p (cell B h bs (Suc p)),
              lg @ [pos_iter B bs (Suc p), pos_iter B bs p, pos_iter B bs (Suc p), pos_iter B bs p])"
proof -
  from assms(2) have q: "p < length bs * nat B" by simp
  let ?h1 = "put_cell B h bs (Suc p) (cell B h bs p)"
  have h1: "hs B ?h1 bs" by (rule hs_put_cell[OF assms(1,2)])
  show ?thesis
    by (simp add: swap_with_prev_log_def iter_prev_def iter_get_log_pos[OF assms(1,2)]
        iter_dec_Suc[OF assms] iter_get_log_pos[OF assms(1) q] iter_set_log_pos[OF assms(1,2)]
        iter_dec_Suc[OF h1 assms(2)] iter_set_log_pos[OF h1 q])
qed

lemma out_of_order_log_begin: "out_of_order_log B gt s (begin_iter s) lg = Inr (False, lg)"
  by (simp add: out_of_order_log_def)

lemma out_of_order_log_pos:
  assumes "hs B (heap s) bs" "fFirstBucket s = Some (hd bs)" "Suc p < length bs * nat B"
  shows "out_of_order_log B gt s (pos_iter B bs (Suc p)) lg =
         Inr (gt (cell B (heap s) bs p) (cell B (heap s) bs (Suc p)),
              lg @ [pos_iter B bs p, pos_iter B bs (Suc p)])"
proof -
  from assms(1) have B: "0 < B" and ne: "bs \<noteq> []" by (simp_all add: hs_def)
  note bg = begin_iter_pos[OF B ne assms(2)]
  from assms(3) have q: "p < length bs * nat B" by simp
  have "pos_iter B bs (Suc p) \<noteq> pos_iter B bs 0"
    using pos_iter_inj[OF assms(1), of "Suc p" 0] assms(3) by auto
  then show ?thesis
    by (simp add: out_of_order_log_def bg iter_prev_def iter_dec_Suc[OF assms(1,3)]
        iter_get_log_pos[OF assms(1,3)] iter_get_log_pos[OF assms(1) q])
qed

lemma sort_inner_log_pos:
  assumes "hs B (heap s) bs" "fFirstBucket s = Some (hd bs)" "j < n" "n \<le> length bs * nat B"
  shows "\<exists>h lg'. sort_inner_log B gt s (pos_iter B bs j) lg = Some (Inr (s\<lparr>heap := h\<rparr>, lg @ lg')) \<and>
           hs B h bs \<and> set lg' \<subseteq> pos_iter B bs ` {..<n}"
  using assms
proof (induction j arbitrary: s lg)
  case 0
  then have B: "0 < B" "bs \<noteq> []" by (simp_all add: hs_def)
  note bg = begin_iter_pos[OF B "0.prems"(2)]
  have "sort_inner_log B gt s (pos_iter B bs 0) lg = Some (Inr (s, lg @ [pos_iter B bs 0]))"
    using out_of_order_log_begin[of B gt s "lg @ [pos_iter B bs 0]"]
    by (subst sort_inner_log.simps) (simp add: bg)
  then have "sort_inner_log B gt s (pos_iter B bs 0) lg =
             Some (Inr (s\<lparr>heap := heap s\<rparr>, lg @ [pos_iter B bs 0]))" by simp
  moreover from "0.prems"(3) have "set [pos_iter B bs 0] \<subseteq> pos_iter B bs ` {..<n}" by auto
  ultimately show ?case using "0.prems"(1) by blast
next
  case (Suc j)
  let ?h = "heap s"
  let ?p = "Suc j"
  let ?lg1 = "(lg @ [pos_iter B bs ?p]) @ [pos_iter B bs j, pos_iter B bs ?p]"
  from Suc.prems have p: "?p < length bs * nat B" and j: "j < n" by simp_all
  from Suc.prems(3) j have in1: "set [pos_iter B bs ?p, pos_iter B bs j, pos_iter B bs ?p]
      \<subseteq> pos_iter B bs ` {..<n}" by auto
  note oo = out_of_order_log_pos[OF Suc.prems(1,2) p, of gt "lg @ [pos_iter B bs ?p]"]
  show ?case
  proof (cases "gt (cell B ?h bs j) (cell B ?h bs ?p)")
    case False
    with oo have "sort_inner_log B gt s (pos_iter B bs ?p) lg = Some (Inr (s, ?lg1))"
      by (subst sort_inner_log.simps) simp
    then have "sort_inner_log B gt s (pos_iter B bs ?p) lg =
               Some (Inr (s\<lparr>heap := heap s\<rparr>,
                          lg @ [pos_iter B bs ?p, pos_iter B bs j, pos_iter B bs ?p]))" by simp
    with in1 Suc.prems(1) show ?thesis by blast
  next
    case True
    let ?h1 = "put_cell B ?h bs ?p (cell B ?h bs j)"
    let ?h2 = "put_cell B ?h1 bs j (cell B ?h bs ?p)"
    let ?lg2 = "?lg1 @ [pos_iter B bs ?p, pos_iter B bs j, pos_iter B bs ?p, pos_iter B bs j]"
    from p have q: "j < length bs * nat B" by simp
    have h1: "hs B ?h1 bs" by (rule hs_put_cell[OF Suc.prems(1) p])
    have h2: "hs B ?h2 bs" by (rule hs_put_cell[OF h1 q])
    have sw: "swap_with_prev_log B ?h (pos_iter B bs ?p) ?lg1 = Inr (?h2, ?lg2)"
      by (rule swap_with_prev_log_pos[OF Suc.prems(1) p])
    have dec: "iter_dec B ?h2 (pos_iter B bs ?p) = Inr (pos_iter B bs j)"
      by (rule iter_dec_Suc[OF h2 p])
    have step: "sort_inner_log B gt s (pos_iter B bs ?p) lg =
                sort_inner_log B gt (s\<lparr>heap := ?h2\<rparr>) (pos_iter B bs j) ?lg2"
      using oo True sw dec by (subst sort_inner_log.simps) simp
    have "\<exists>h lg'. sort_inner_log B gt (s\<lparr>heap := ?h2\<rparr>) (pos_iter B bs j) ?lg2 =
                Some (Inr (s\<lparr>heap := ?h2\<rparr>\<lparr>heap := h\<rparr>, ?lg2 @ lg')) \<and> hs B h bs \<and>
                set lg' \<subseteq> pos_iter B bs ` {..<n}"
      using h2 Suc.prems(2) j Suc.prems(4) by (intro Suc.IH) simp_all
    then obtain h lg' where h: "sort_inner_log B gt (s\<lparr>heap := ?h2\<rparr>) (pos_iter B bs j) ?lg2 =
                Some (Inr (s\<lparr>heap := h\<rparr>, ?lg2 @ lg'))" "hs B h bs"
                "set lg' \<subseteq> pos_iter B bs ` {..<n}"
      by auto
    let ?new = "[pos_iter B bs ?p, pos_iter B bs j, pos_iter B bs ?p,
                 pos_iter B bs ?p, pos_iter B bs j, pos_iter B bs ?p, pos_iter B bs j] @ lg'"
    have e: "?lg2 @ lg' = lg @ ?new" by simp
    from in1 h(3) have "set ?new \<subseteq> pos_iter B bs ` {..<n}" by auto
    moreover from step h(1) e
    have "sort_inner_log B gt s (pos_iter B bs ?p) lg = Some (Inr (s\<lparr>heap := h\<rparr>, lg @ ?new))"
      by simp
    ultimately show ?thesis using h(2) by blast
  qed
qed

lemma sort_outer_log_pos:
  assumes "hs B (heap s) bs" "fFirstBucket s = Some (hd bs)" "i \<le> n" "n \<le> length bs * nat B"
    "k = n - i"
  shows "\<exists>h lg'. sort_outer_log B gt (pos_iter B bs n) s (pos_iter B bs i) lg =
                  Some (Inr (s\<lparr>heap := h\<rparr>, lg @ lg')) \<and>
           hs B h bs \<and> set lg' \<subseteq> pos_iter B bs ` {..<n}"
  using assms
proof (induction k arbitrary: s i lg)
  case 0
  then have "i = n" by simp
  then have "sort_outer_log B gt (pos_iter B bs n) s (pos_iter B bs i) lg = Some (Inr (s, lg))"
    by (subst sort_outer_log.simps) simp
  then have "sort_outer_log B gt (pos_iter B bs n) s (pos_iter B bs i) lg =
             Some (Inr (s\<lparr>heap := heap s\<rparr>, lg @ []))" by simp
  moreover have "set ([]::iterator list) \<subseteq> pos_iter B bs ` {..<n}" by simp
  ultimately show ?case using "0.prems"(1) by blast
next
  case (Suc k)
  then have i: "i < n" and il: "i < length bs * nat B" by simp_all
  have ne: "pos_iter B bs i \<noteq> pos_iter B bs n"
    using pos_iter_inj[OF Suc.prems(1), of i n] i Suc.prems(4) by auto
  from sort_inner_log_pos[OF Suc.prems(1,2) i Suc.prems(4), of gt lg]
  obtain h1 lg1 where h1: "sort_inner_log B gt s (pos_iter B bs i) lg =
      Some (Inr (s\<lparr>heap := h1\<rparr>, lg @ lg1))"
    "hs B h1 bs" "set lg1 \<subseteq> pos_iter B bs ` {..<n}" by blast
  have inc: "iter_inc B h1 (pos_iter B bs i) = Inr (pos_iter B bs (Suc i))"
    by (rule iter_inc_pos[OF h1(2) il])
  have step: "sort_outer_log B gt (pos_iter B bs n) s (pos_iter B bs i) lg =
              sort_outer_log B gt (pos_iter B bs n) (s\<lparr>heap := h1\<rparr>) (pos_iter B bs (Suc i))
                (lg @ lg1)"
    using ne h1(1) inc by (subst sort_outer_log.simps) simp
  have "\<exists>h lg'. sort_outer_log B gt (pos_iter B bs n) (s\<lparr>heap := h1\<rparr>) (pos_iter B bs (Suc i))
                   (lg @ lg1) =
              Some (Inr (s\<lparr>heap := h1\<rparr>\<lparr>heap := h\<rparr>, (lg @ lg1) @ lg')) \<and> hs B h bs \<and>
              set lg' \<subseteq> pos_iter B bs ` {..<n}"
    using h1(2) Suc.prems(2,4,5) i by (intro Suc.IH) simp_all
  then obtain h lg' where h: "sort_outer_log B gt (pos_iter B bs n) (s\<lparr>heap := h1\<rparr>)
        (pos_iter B bs (Suc i)) (lg @ lg1) = Some (Inr (s\<lparr>heap := h\<rparr>, (lg @ lg1) @ lg'))"
    "hs B h bs" "set lg' \<subseteq> pos_iter B bs ` {..<n}" by auto
  from h1(3) h(3) have "set (lg1 @ lg') \<subseteq> pos_iter B bs ` {..<n}" by simp
  moreover from step h(1)
  have "sort_outer_log B gt (pos_iter B bs n) s (pos_iter B bs i) lg =
        Some (Inr (s\<lparr>heap := h\<rparr>, lg @ (lg1 @ lg')))" by simp
  ultimately show ?case using h(2) by blast
qed

lemma sort_log_valid:
  assumes "valid B s bs" "begin_iter s \<noteq> end_iter s"
  shows "\<exists>s' lg. sort_log B gt s = Some (Inr (s', lg)) \<and> sort B gt s = Some (Inr s') \<and>
           valid B s' bs \<and> size_of B s' bs = size_of B s bs \<and>
           set lg \<subseteq> pos_iter B bs ` {..<size_of B s bs}"
proof -
  from begin_end_nonempty[OF assms] have ne: "bs \<noteq> []" and n: "0 < size_of B s bs" by simp_all
  let ?n = "size_of B s bs"
  note h = valid_hs[OF assms(1) ne]
  from assms(1) have B: "0 < B" by (simp add: valid_def)
  from valid_first[OF assms(1)] ne have f: "fFirstBucket s = Some (hd bs)" by simp
  note nl = size_of_le[OF assms(1) ne]
  from n nl have l: "0 < length bs * nat B" by (rule less_le_trans)
  have nx: "iter_next B (heap s) (begin_iter s) = Inr (pos_iter B bs (Suc 0))"
    using iter_inc_pos[OF h l] by (simp add: iter_next_def begin_iter_pos[OF B ne f])
  from n have i: "Suc 0 \<le> ?n" by simp
  from sort_outer_log_pos[OF h f i nl refl, of gt "[]"]
  obtain h' lg where h': "sort_outer_log B gt (pos_iter B bs ?n) s (pos_iter B bs (Suc 0)) [] =
       Some (Inr (s\<lparr>heap := h'\<rparr>, lg))" "hs B h' bs" "set lg \<subseteq> pos_iter B bs ` {..<?n}"
    by auto
  have sl: "sort_log B gt s = Some (Inr (s\<lparr>heap := h'\<rparr>, lg))"
    using f nx h'(1) by (simp add: sort_log_def end_iter_pos[OF assms(1) ne])
  from sort_log_erase[of B gt s] sl have so: "sort B gt s = Some (Inr (s\<lparr>heap := h'\<rparr>))"
    by (simp add: drop_log_def)
  have v: "valid B (s\<lparr>heap := h'\<rparr>) bs" by (rule valid_heap_upd[OF assms(1) ne h'(2)])
  have "size_of B (s\<lparr>heap := h'\<rparr>) bs = ?n" by (simp add: size_of_def)
  with sl so v h'(3) show ?thesis by blast
qed

section \<open>Properties of the container\<close>

lemmas eval_defs =
  append.simps allocateBucket_def acquire_lock.simps grow_def link_bucket_def newBucket_def must_grow_def
  cas_index_def store_slot_def store_item_def setAllocator_def SliceArray_init_def Let_def
  sort_def sort_outer.simps sort_inner.simps collect_def collect_from.simps iter_next_def
  iter_inc_def iter_dec_def iter_prev_def begin_iter_def end_iter_def bucket_at_def
  out_of_order_def swap_with_prev_def iter_get_def iter_set_def load_item_def gt_key_def

lemma appends_example_three:
  "appends 2 0 [3, 1, 2] (setAllocator 0 SliceArray_init) = Some (Inr example_three)"
  by (simp add: eval_defs example_three_def fun_upd_twist numeral_2_eq_2)

lemma appends_example_full:
  "appends 2 0 [5, 6] (setAllocator 0 SliceArray_init) = Some (Inr example_full)"
  by (simp add: eval_defs example_full_def numeral_2_eq_2)

lemma valid_example_three: "valid 2 example_three [0, 1]"
  by (simp add: valid_def example_three_def full_buckets_def)

lemma valid_example_full: "valid 2 example_full [0]"
  by (simp add: valid_def example_full_def full_buckets_def)

lemma reachable_appends:
  fixes d :: 'a
  assumes "reachable B d s" "appends B d vs s = Some (Inr s')"
  shows "reachable B d s'"
  using assms
proof (induction vs arbitrary: s)
  case Nil
  then show ?case by simp
next
  case (Cons v vs)
  from Cons.prems(2) obtain s1 where s1: "append B d v s = Some (Inr s1)"
    "appends B d vs s1 = Some (Inr s')"
    by (auto split: option.splits sum.splits)
  from reachable.after_append[OF Cons.prems(1) s1(1)] s1(2) show ?case by (rule Cons.IH)
qed

lemma reachable_example_three: "reachable 2 0 example_three"
  by (rule reachable_appends[OF reachable.new_allocator appends_example_three])

lemma reachable_example_full: "reachable 2 0 example_full"
  by (rule reachable_appends[OF reachable.new_allocator appends_example_full])

subsection \<open>C1: append, then iterate\<close>

text \<open>
  C1. For a single thread: after appending \<open>v1 .. vN\<close>, in that order, to a container that
  starts empty and has an allocator set, the traversal from \<open>begin()\<close> to \<open>end()\<close> returns
  and yields exactly \<open>v1 .. vN\<close> in append order, for every \<open>N\<close> and every bucket size
  \<open>BUCKET_SIZE > 0\<close>, so also when the values span several buckets.
\<close>

theorem append_then_iterate:
  fixes d :: 'a
  assumes "0 < B"
  shows "\<exists>s. appends B d vs (setAllocator a SliceArray_init) = Some (Inr s) \<and>
             collect B s = Some (Inr vs)"
proof -
  from appends_init[OF assms, of d vs a]
  obtain s bs where s: "appends B d vs (setAllocator a SliceArray_init) = Some (Inr s)"
    "valid B s bs" "contents B s bs = vs"
    by (elim exE conjE)
  from collect_contents[OF s(2)] s(3) have "collect B s = Some (Inr vs)" by simp
  with s(1) show ?thesis by (intro exI[of _ s]) simp
qed

theorem append_then_iterate_witness:
  "\<exists>s. appends 4 (0::int) [0, 1, 2, 3, 4, 5, 6, 7, 8] (setAllocator 0 SliceArray_init) = Some (Inr s) \<and>
       collect 4 s = Some (Inr [0, 1, 2, 3, 4, 5, 6, 7, 8])"
proof -
  have B: "0 < (4::int)" by simp
  show ?thesis
    by (rule append_then_iterate [OF B, of "0::int" "[0, 1, 2, 3, 4, 5, 6, 7, 8]" 0])
qed

subsection \<open>C2: sort\<close>

lemma sort_appended:
  fixes d :: 'a
  assumes "0 < B"
  shows "\<exists>s s'. appends B d vs (setAllocator a SliceArray_init) = Some (Inr s) \<and>
           collect B s = Some (Inr vs) \<and> sort B gt s = Some (Inr s') \<and>
           collect B s' = Some (Inr (isort_acc gt [] vs)) \<and> (vs = [] \<longrightarrow> s' = s)"
proof -
  from appends_init[OF assms, of d vs a]
  obtain s bs where s: "appends B d vs (setAllocator a SliceArray_init) = Some (Inr s)"
    "valid B s bs" "contents B s bs = vs" "bs \<noteq> [] \<longrightarrow> 0 < fNextBucketIndex s"
    by (elim exE conjE)
  show ?thesis
  proof (cases "bs = []")
    case True
    with valid_first[OF s(2)] have "fFirstBucket s = None" by simp
    then have so: "sort B gt s = Some (Inr s)" by (rule sort_empty)
    from True s(2,3) contents_Nil[of B s] have "vs = []" by simp
    with collect_contents[OF s(2)] s(3) have "collect B s = Some (Inr (isort_acc gt [] vs))"
      "collect B s = Some (Inr vs)"
      by simp_all
    with s(1) so show ?thesis by (intro exI[of _ s]) simp
  next
    case False
    with s(4) have "0 < fNextBucketIndex s" by simp
    then have ne: "begin_iter s \<noteq> end_iter s" by (rule tight_begin_end[OF s(2) False])
    from sort_valid[OF s(2) ne, of gt]
    obtain h where h: "sort B gt s = Some (Inr (s\<lparr>heap := h\<rparr>))" "valid B (s\<lparr>heap := h\<rparr>) bs"
      "contents B (s\<lparr>heap := h\<rparr>) bs = isort_acc gt [] (contents B s bs)"
      by (elim exE conjE)
    from collect_contents[OF h(2)] h(3) s(3)
    have c: "collect B (s\<lparr>heap := h\<rparr>) = Some (Inr (isort_acc gt [] vs))" by simp
    from begin_end_nonempty[OF s(2) ne] have "0 < length (contents B s bs)"
      by (simp add: contents_def)
    with s(3) have "vs \<noteq> []" by auto
    moreover from collect_contents[OF s(2)] s(3) have "collect B s = Some (Inr vs)" by simp
    ultimately show ?thesis using s(1) h(1) c
      by (intro exI[of _ s] exI[of _ "s\<lparr>heap := h\<rparr>"]) simp
  qed
qed

text \<open>
  C2. For every container state reached by single-threaded appends, \<open>sort()\<close> returns,
  and the sequence read afterwards is a permutation of the sequence before, in
  ascending order of the elements' keys (for a linear order on the elements
  themselves, take the identity as key); \<open>sort()\<close> on the empty container leaves the
  state as it is.
\<close>

theorem sort_sorts:
  fixes d :: 'a and key :: "'a \<Rightarrow> 'k::linorder"
  assumes "0 < B"
  shows "\<exists>s s' ys. appends B d vs (setAllocator a SliceArray_init) = Some (Inr s) \<and>
           collect B s = Some (Inr vs) \<and>
           sort B (gt_key key) s = Some (Inr s') \<and> collect B s' = Some (Inr ys) \<and>
           sorted (map key ys) \<and> mset ys = mset vs \<and> (vs = [] \<longrightarrow> s' = s)"
proof -
  from sort_appended[OF assms, of d vs a "gt_key key"]
  obtain s s' where s: "appends B d vs (setAllocator a SliceArray_init) = Some (Inr s)"
    "collect B s = Some (Inr vs)" "sort B (gt_key key) s = Some (Inr s')"
    "collect B s' = Some (Inr (isort_acc (gt_key key) [] vs))" "vs = [] \<longrightarrow> s' = s"
    by (elim exE conjE)
  have "sorted (map key (isort_acc (gt_key key) [] vs))"
    by (rule sorted_isort_acc) simp
  moreover have "mset (isort_acc (gt_key key) [] vs) = mset vs"
    by (simp add: mset_isort_acc)
  ultimately show ?thesis using s
    by (intro exI[of _ s] exI[of _ s'] exI[of _ "isort_acc (gt_key key) [] vs"]) simp
qed

theorem sort_sorts_witness:
  "(\<exists>s s' ys. appends 2 (0::int) [4, 2, 5, 1, 3] (setAllocator 0 SliceArray_init) = Some (Inr s) \<and>
      collect 2 s = Some (Inr [4, 2, 5, 1, 3]) \<and>
      sort 2 (gt_key id) s = Some (Inr s') \<and> collect 2 s' = Some (Inr ys) \<and>
      sorted (map id ys) \<and> mset ys = mset [4, 2, 5, 1, 3]) \<and>
   (\<exists>s s' ys. appends 2 (0::int) [] (setAllocator 0 SliceArray_init) = Some (Inr s) \<and>
      collect 2 s = Some (Inr []) \<and>
      sort 2 (gt_key id) s = Some (Inr s') \<and> collect 2 s' = Some (Inr ys) \<and>
      sorted (map id ys) \<and> mset ys = mset [] \<and> s' = s)"
proof (rule conjI)
  have B: "0 < (2::int)" by simp
  show "\<exists>s s' ys. appends 2 (0::int) [4, 2, 5, 1, 3] (setAllocator 0 SliceArray_init) = Some (Inr s) \<and>
      collect 2 s = Some (Inr [4, 2, 5, 1, 3]) \<and>
      sort 2 (gt_key id) s = Some (Inr s') \<and> collect 2 s' = Some (Inr ys) \<and>
      sorted (map id ys) \<and> mset ys = mset [4, 2, 5, 1, 3]"
    using sort_sorts [OF B, of "0::int" "[4, 2, 5, 1, 3]" 0 id] by simp
  show "\<exists>s s' ys. appends 2 (0::int) [] (setAllocator 0 SliceArray_init) = Some (Inr s) \<and>
      collect 2 s = Some (Inr []) \<and>
      sort 2 (gt_key id) s = Some (Inr s') \<and> collect 2 s' = Some (Inr ys) \<and>
      sorted (map id ys) \<and> mset ys = mset [] \<and> s' = s"
    using sort_sorts [OF B, of "0::int" "[]" 0 id] by simp
qed

subsection \<open>C8: stability\<close>

text \<open>
  C8. \<open>sort()\<close> is stable: elements that compare equal (neither is greater, that is,
  they have the same key) appear after the sort in the relative order they had before.
  For every key \<open>k\<close>, the elements with key \<open>k\<close> form the same sequence before and after.
\<close>

theorem sort_stable:
  fixes d :: 'a and key :: "'a \<Rightarrow> 'k::linorder"
  assumes "0 < B"
  shows "\<exists>s s' ys. appends B d vs (setAllocator a SliceArray_init) = Some (Inr s) \<and>
           collect B s = Some (Inr vs) \<and>
           sort B (gt_key key) s = Some (Inr s') \<and> collect B s' = Some (Inr ys) \<and>
           (\<forall>k. filter (\<lambda>x. key x = k) ys = filter (\<lambda>x. key x = k) vs)"
proof -
  from sort_appended[OF assms, of d vs a "gt_key key"]
  obtain s s' where s: "appends B d vs (setAllocator a SliceArray_init) = Some (Inr s)"
    "collect B s = Some (Inr vs)" "sort B (gt_key key) s = Some (Inr s')"
    "collect B s' = Some (Inr (isort_acc (gt_key key) [] vs))"
    by (elim exE conjE)
  have "\<forall>k. filter (\<lambda>x. key x = k) (isort_acc (gt_key key) [] vs) = filter (\<lambda>x. key x = k) vs"
    by (simp add: filter_isort_acc)
  with s show ?thesis
    by (intro exI[of _ s] exI[of _ s'] exI[of _ "isort_acc (gt_key key) [] vs"]) simp
qed

theorem sort_stable_witness:
  "(\<exists>s s' ys. appends 3 (0, 0) [(2::int, 0::int), (1, 1), (2, 2), (1, 3)]
        (setAllocator 0 SliceArray_init) = Some (Inr s) \<and>
      collect 3 s = Some (Inr [(2, 0), (1, 1), (2, 2), (1, 3)]) \<and>
      sort 3 (gt_key fst) s = Some (Inr s') \<and> collect 3 s' = Some (Inr ys) \<and>
      (\<forall>k. filter (\<lambda>x. fst x = k) ys = filter (\<lambda>x. fst x = k) [(2, 0), (1, 1), (2, 2), (1, 3)])) \<and>
   (case appends 3 (0, 0) [(2::int, 0::int), (1, 1), (2, 2), (1, 3)]
        (setAllocator 0 SliceArray_init) of
      Some (Inr s) \<Rightarrow>
        (case sort 3 (gt_key fst) s of
           Some (Inr s') \<Rightarrow> collect 3 s' = Some (Inr [(1, 1), (1, 3), (2, 0), (2, 2)])
         | _ \<Rightarrow> False)
    | _ \<Rightarrow> False)"
proof (rule conjI)
  have B: "0 < (3::int)" by simp
  show "\<exists>s s' ys. appends 3 (0, 0) [(2::int, 0::int), (1, 1), (2, 2), (1, 3)]
        (setAllocator 0 SliceArray_init) = Some (Inr s) \<and>
      collect 3 s = Some (Inr [(2, 0), (1, 1), (2, 2), (1, 3)]) \<and>
      sort 3 (gt_key fst) s = Some (Inr s') \<and> collect 3 s' = Some (Inr ys) \<and>
      (\<forall>k. filter (\<lambda>x. fst x = k) ys = filter (\<lambda>x. fst x = k) [(2, 0), (1, 1), (2, 2), (1, 3)])"
    by (rule sort_stable [OF B, of "(0::int, 0::int)" "[(2, 0), (1, 1), (2, 2), (1, 3)]" 0 fst])
  show "case appends 3 (0, 0) [(2::int, 0::int), (1, 1), (2, 2), (1, 3)]
        (setAllocator 0 SliceArray_init) of
      Some (Inr s) \<Rightarrow>
        (case sort 3 (gt_key fst) s of
           Some (Inr s') \<Rightarrow> collect 3 s' = Some (Inr [(1, 1), (1, 3), (2, 0), (2, 2)])
         | _ \<Rightarrow> False)
    | _ \<Rightarrow> False"
    by (simp add: eval_defs)
qed

subsection \<open>C10: sort stays inside the sequence\<close>

lemma sort_body_pos:
  assumes "valid B s bs" "0 < p" "p < size_of B s bs"
  shows "(\<exists>c. out_of_order B gt s (pos_iter B bs p) = Inr c) \<and>
         (\<exists>h. swap_with_prev B (heap s) (pos_iter B bs p) = Inr h \<and>
              iter_dec B h (pos_iter B bs p) = Inr (pos_iter B bs (p - 1)) \<and>
              valid B (s\<lparr>heap := h\<rparr>) bs)"
proof -
  have ne: "bs \<noteq> []"
  proof
    assume "bs = []"
    with assms(1) have "size_of B s bs = 0" by (simp add: size_of_def valid_def)
    with assms(3) show False by simp
  qed
  note h = valid_hs[OF assms(1) ne]
  from valid_first[OF assms(1)] ne have f: "fFirstBucket s = Some (hd bs)" by simp
  from assms(2) obtain q where q: "p = Suc q" by (cases p) auto
  from assms(3) size_of_le[OF assms(1) ne] q have l: "Suc q < length bs * nat B" by simp
  then have l': "q < length bs * nat B" by simp
  let ?h1 = "put_cell B (heap s) bs (Suc q) (cell B (heap s) bs q)"
  let ?h2 = "put_cell B ?h1 bs q (cell B (heap s) bs (Suc q))"
  have h1: "hs B ?h1 bs" by (rule hs_put_cell[OF h l])
  have h2: "hs B ?h2 bs" by (rule hs_put_cell[OF h1 l'])
  have "out_of_order B gt s (pos_iter B bs (Suc q)) =
        Inr (gt (cell B (heap s) bs q) (cell B (heap s) bs (Suc q)))"
    by (rule out_of_order_pos[OF h f l])
  moreover have "swap_with_prev B (heap s) (pos_iter B bs (Suc q)) = Inr ?h2"
    by (rule swap_with_prev_pos[OF h l])
  moreover have "iter_dec B ?h2 (pos_iter B bs (Suc q)) = Inr (pos_iter B bs q)"
    by (rule iter_dec_Suc[OF h2 l])
  moreover have "valid B (s\<lparr>heap := ?h2\<rparr>) bs" by (rule valid_heap_upd[OF assms(1) ne h2])
  ultimately show ?thesis unfolding q by auto
qed

text \<open>
  C10. On every valid container that is not empty (\<open>begin() != end()\<close>), for every
  comparison, \<open>sort()\<close> returns without a fault and leaves a valid container, and every
  iterator it uses is inside the sequence: \<open>sort_log\<close>, which is \<open>sort\<close> with a log (for
  every state \<open>t\<close>, dropping the log from its result gives the result of \<open>sort\<close>), returns
  the same state together with the log of every value the working iterator \<open>j\<close> took
  and every iterator that was dereferenced, and each of them is the iterator of a
  position \<open>p < size_of\<close>. Positions count from \<open>begin()\<close>, which is position 0, and the
  captured \<open>end()\<close> is position \<open>size_of\<close>: no iterator in the log is at \<open>end()\<close> or at a later
  position of the chain, and none lies before \<open>begin()\<close>. The loop condition at \<open>begin()\<close>
  is false without any dereference, in every state \<open>t\<close> and whatever its store: nothing
  is added to the log. The outer iterator starts at position 1; at every position \<open>p\<close>
  with \<open>0 < p < size_of\<close> the condition and the swap of the inner loop are evaluated
  without a fault, and \<open>--j\<close> moves \<open>j\<close> to position \<open>p - 1\<close>, in a state that is valid
  again.
\<close>

theorem sort_in_range:
  assumes "valid B s bs" "begin_iter s \<noteq> end_iter s"
  shows "(\<exists>s' lg. sort_log B gt s = Some (Inr (s', lg)) \<and> sort B gt s = Some (Inr s') \<and>
            valid B s' bs \<and>
            set lg \<subseteq> pos_iter B bs ` {..<size_of B s bs} \<and>
            (\<forall>p. size_of B s bs \<le> p \<and> p \<le> length bs * nat B \<longrightarrow> pos_iter B bs p \<notin> set lg)) \<and>
         drop_log (sort_log B gt t) = sort B gt t \<and>
         begin_iter s = pos_iter B bs 0 \<and>
         end_iter s = pos_iter B bs (size_of B s bs) \<and>
         out_of_order B gt t (begin_iter t) = Inr False \<and>
         out_of_order_log B gt t (begin_iter t) lg0 = Inr (False, lg0) \<and>
         iter_next B (heap s) (begin_iter s) = Inr (pos_iter B bs 1) \<and>
         (\<forall>p. 0 < p \<and> p < size_of B s bs \<longrightarrow>
            (\<exists>c. out_of_order B gt s (pos_iter B bs p) = Inr c) \<and>
            (\<exists>h. swap_with_prev B (heap s) (pos_iter B bs p) = Inr h \<and>
                 iter_dec B h (pos_iter B bs p) = Inr (pos_iter B bs (p - 1)) \<and>
                 valid B (s\<lparr>heap := h\<rparr>) bs))"
proof -
  from begin_end_nonempty[OF assms] have ne: "bs \<noteq> []" and n: "0 < size_of B s bs" by simp_all
  from assms(1) have B: "0 < B" by (simp add: valid_def)
  from valid_first[OF assms(1)] ne have f: "fFirstBucket s = Some (hd bs)" by simp
  note h = valid_hs[OF assms(1) ne]
  note le = size_of_le[OF assms(1) ne]
  from n le have l: "0 < length bs * nat B" by (rule less_le_trans)
  from sort_log_valid[OF assms, of gt]
  obtain s' lg where s': "sort_log B gt s = Some (Inr (s', lg))" "sort B gt s = Some (Inr s')"
    "valid B s' bs" "set lg \<subseteq> pos_iter B bs ` {..<size_of B s bs}"
    by (elim exE conjE)
  have past: "\<forall>p. size_of B s bs \<le> p \<and> p \<le> length bs * nat B \<longrightarrow> pos_iter B bs p \<notin> set lg"
  proof (intro allI impI notI)
    fix p assume p: "size_of B s bs \<le> p \<and> p \<le> length bs * nat B"
      and "pos_iter B bs p \<in> set lg"
    with s'(4) obtain q where q: "q < size_of B s bs" "pos_iter B bs p = pos_iter B bs q"
      by auto
    from q(1) le have "q \<le> length bs * nat B" by simp
    with pos_iter_inj[OF h _ this q(2)] p have "p = q" by simp
    with p q(1) show False by simp
  qed
  have 1: "\<exists>s' lg. sort_log B gt s = Some (Inr (s', lg)) \<and> sort B gt s = Some (Inr s') \<and>
            valid B s' bs \<and>
            set lg \<subseteq> pos_iter B bs ` {..<size_of B s bs} \<and>
            (\<forall>p. size_of B s bs \<le> p \<and> p \<le> length bs * nat B \<longrightarrow> pos_iter B bs p \<notin> set lg)"
    using s' past by (intro exI[of _ s'] exI[of _ lg] conjI)
  have 2: "drop_log (sort_log B gt t) = sort B gt t" by (rule sort_log_erase)
  have 3: "begin_iter s = pos_iter B bs 0" by (rule begin_iter_pos[OF B ne f])
  have 4: "end_iter s = pos_iter B bs (size_of B s bs)" by (rule end_iter_pos[OF assms(1) ne])
  have 5: "out_of_order B gt t (begin_iter t) = Inr False" by (rule out_of_order_begin)
  have 6: "out_of_order_log B gt t (begin_iter t) lg0 = Inr (False, lg0)"
    by (rule out_of_order_log_begin)
  have 7: "iter_next B (heap s) (begin_iter s) = Inr (pos_iter B bs 1)"
    using iter_inc_pos[OF h l] by (simp add: iter_next_def 3)
  have 8: "\<forall>p. 0 < p \<and> p < size_of B s bs \<longrightarrow>
            (\<exists>c. out_of_order B gt s (pos_iter B bs p) = Inr c) \<and>
            (\<exists>h. swap_with_prev B (heap s) (pos_iter B bs p) = Inr h \<and>
                 iter_dec B h (pos_iter B bs p) = Inr (pos_iter B bs (p - 1)) \<and>
                 valid B (s\<lparr>heap := h\<rparr>) bs)"
    using sort_body_pos[OF assms(1), of _ gt] by blast
  from 1 2 3 4 5 6 7 8 show ?thesis by (intro conjI)
qed

theorem sort_in_range_witness:
  "valid 2 example_three [0, 1] \<and> begin_iter example_three \<noteq> end_iter example_three \<and>
   (\<exists>s' lg. sort_log 2 (gt_key id) example_three = Some (Inr (s', lg)) \<and>
       sort 2 (gt_key id) example_three = Some (Inr s') \<and> valid 2 s' [0, 1] \<and>
       set lg \<subseteq> pos_iter 2 [0, 1] ` {..<size_of 2 example_three [0, 1]} \<and>
       pos_iter 2 [0, 1] 3 \<notin> set lg \<and> pos_iter 2 [0, 1] 4 \<notin> set lg) \<and>
   size_of 2 example_three [0, 1] = 3 \<and>
   end_iter example_three = pos_iter 2 [0, 1] 3 \<and>
   (\<exists>c. out_of_order 2 (gt_key id) example_three (pos_iter 2 [0, 1] 2) = Inr c) \<and>
   (case sort_log 2 (gt_key id) example_three of
      Some (Inr (s', lg)) \<Rightarrow>
        collect 2 s' = Some (Inr [1, 2, 3]) \<and>
        lg = [iterator (Some 0) 1, iterator (Some 0) 0, iterator (Some 0) 1,
              iterator (Some 0) 1, iterator (Some 0) 0, iterator (Some 0) 1,
              iterator (Some 0) 0, iterator (Some 0) 0, iterator (Some 1) 0,
              iterator (Some 0) 1, iterator (Some 1) 0, iterator (Some 1) 0,
              iterator (Some 0) 1, iterator (Some 1) 0, iterator (Some 0) 1,
              iterator (Some 0) 1, iterator (Some 0) 0, iterator (Some 0) 1] \<and>
        end_iter example_three = iterator (Some 1) 1
    | _ \<Rightarrow> False)"
proof -
  have ne: "begin_iter example_three \<noteq> end_iter example_three"
    by (simp add: begin_iter_def end_iter_def example_three_def)
  have sz: "size_of 2 example_three [0, 1] = 3" by (simp add: size_of_def example_three_def)
  note th = sort_in_range [OF valid_example_three ne, of "gt_key id" example_three "[]"]
  from th have "\<exists>s' lg. sort_log 2 (gt_key id) example_three = Some (Inr (s', lg)) \<and>
       sort 2 (gt_key id) example_three = Some (Inr s') \<and> valid 2 s' [0, 1] \<and>
       set lg \<subseteq> pos_iter 2 [0, 1] ` {..<size_of 2 example_three [0, 1]} \<and>
       (\<forall>p. size_of 2 example_three [0, 1] \<le> p \<and> p \<le> length [0::nat, 1] * nat 2 \<longrightarrow>
            pos_iter 2 [0, 1] p \<notin> set lg)"
    by (rule conjunct1)
  then obtain s' lg where s': "sort_log 2 (gt_key id) example_three = Some (Inr (s', lg))"
    "sort 2 (gt_key id) example_three = Some (Inr s')" "valid 2 s' [0, 1]"
    "set lg \<subseteq> pos_iter 2 [0, 1] ` {..<size_of 2 example_three [0, 1]}"
    "\<forall>p. size_of 2 example_three [0, 1] \<le> p \<and> p \<le> length [0::nat, 1] * nat 2 \<longrightarrow>
            pos_iter 2 [0, 1] p \<notin> set lg"
    by (elim exE conjE)
  from s'(5) sz have "pos_iter 2 [0, 1] 3 \<notin> set lg" "pos_iter 2 [0, 1] 4 \<notin> set lg" by simp_all
  with s'(1-4) have 1: "\<exists>s' lg. sort_log 2 (gt_key id) example_three = Some (Inr (s', lg)) \<and>
       sort 2 (gt_key id) example_three = Some (Inr s') \<and> valid 2 s' [0, 1] \<and>
       set lg \<subseteq> pos_iter 2 [0, 1] ` {..<size_of 2 example_three [0, 1]} \<and>
       pos_iter 2 [0, 1] 3 \<notin> set lg \<and> pos_iter 2 [0, 1] 4 \<notin> set lg"
    by (intro exI[of _ s'] exI[of _ lg] conjI)
  from th sz have 2: "end_iter example_three = pos_iter 2 [0, 1] 3" by simp
  have p: "0 < (2::nat) \<and> 2 < size_of 2 example_three [0, 1]"
    by (simp add: size_of_def example_three_def)
  from th have "\<forall>p. 0 < p \<and> p < size_of 2 example_three [0, 1] \<longrightarrow>
            (\<exists>c. out_of_order 2 (gt_key id) example_three (pos_iter 2 [0, 1] p) = Inr c) \<and>
            (\<exists>h. swap_with_prev 2 (heap example_three) (pos_iter 2 [0, 1] p) = Inr h \<and>
                 iter_dec 2 h (pos_iter 2 [0, 1] p) = Inr (pos_iter 2 [0, 1] (p - 1)) \<and>
                 valid 2 (example_three\<lparr>heap := h\<rparr>) [0, 1])"
    by (elim conjE)
  with p have 3: "\<exists>c. out_of_order 2 (gt_key id) example_three (pos_iter 2 [0, 1] 2) = Inr c"
    by blast
  have 4: "case sort_log 2 (gt_key id) example_three of
      Some (Inr (s', lg)) \<Rightarrow>
        collect 2 s' = Some (Inr [1, 2, 3]) \<and>
        lg = [iterator (Some 0) 1, iterator (Some 0) 0, iterator (Some 0) 1,
              iterator (Some 0) 1, iterator (Some 0) 0, iterator (Some 0) 1,
              iterator (Some 0) 0, iterator (Some 0) 0, iterator (Some 1) 0,
              iterator (Some 0) 1, iterator (Some 1) 0, iterator (Some 1) 0,
              iterator (Some 0) 1, iterator (Some 1) 0, iterator (Some 0) 1,
              iterator (Some 0) 1, iterator (Some 0) 0, iterator (Some 0) 1] \<and>
        end_iter example_three = iterator (Some 1) 1
    | _ \<Rightarrow> False"
    by (simp add: eval_defs example_three_def sort_log_def sort_outer_log.simps
        sort_inner_log.simps out_of_order_log_def swap_with_prev_log_def iter_get_log_def
        iter_set_log_def)
  from valid_example_three ne 1 sz 2 3 4 show ?thesis by (intro conjI)
qed

subsection \<open>C5: the invariant of the reachable states\<close>

text \<open>
  C5. In every state reachable from the new container by calls of \<open>append\<close>,
  \<open>allocateBucket\<close> and \<open>reset\<close>, \<open>fNextBucketIndex\<close> lies in \<open>0 .. BUCKET_SIZE\<close>, and
  \<open>fLastBucket\<close> is the last bucket of the chain that starts at \<open>fFirstBucket\<close>; both
  pointers are null exactly when the chain is empty.
\<close>

theorem reachable_invariant:
  fixes d :: 'a
  assumes "0 < B" "reachable B d s"
  shows "0 \<le> fNextBucketIndex s \<and> fNextBucketIndex s \<le> B \<and>
         (\<exists>bs. chain (heap s) None (fFirstBucket s) bs \<and>
               fLastBucket s = (if bs = [] then None else Some (last bs)) \<and>
               (fFirstBucket s = None \<longleftrightarrow> bs = []) \<and> (fLastBucket s = None \<longleftrightarrow> bs = []))"
proof -
  from reachable_valid[OF assms(2,1)] obtain bs where v: "valid B s bs" by (elim exE conjE)
  then have i: "0 \<le> fNextBucketIndex s" "fNextBucketIndex s \<le> B"
    and c: "chain (heap s) None (fFirstBucket s) bs"
    and l: "fLastBucket s = (if bs = [] then None else Some (last bs))"
    by (simp_all add: valid_def)
  from valid_first[OF v] have f: "fFirstBucket s = None \<longleftrightarrow> bs = []" by simp
  from l have "fLastBucket s = None \<longleftrightarrow> bs = []" by simp
  with c l f have "\<exists>bs. chain (heap s) None (fFirstBucket s) bs \<and>
               fLastBucket s = (if bs = [] then None else Some (last bs)) \<and>
               (fFirstBucket s = None \<longleftrightarrow> bs = []) \<and> (fLastBucket s = None \<longleftrightarrow> bs = [])"
    by (intro exI[of _ bs] conjI)
  with i show ?thesis by (intro conjI)
qed

theorem reachable_invariant_witness:
  "0 \<le> fNextBucketIndex example_three \<and> fNextBucketIndex example_three \<le> 2 \<and>
   (\<exists>bs. chain (heap example_three) None (fFirstBucket example_three) bs \<and>
         fLastBucket example_three = (if bs = [] then None else Some (last bs)) \<and>
         (fFirstBucket example_three = None \<longleftrightarrow> bs = []) \<and>
         (fLastBucket example_three = None \<longleftrightarrow> bs = []))"
proof -
  have B: "0 < (2::int)" by simp
  show ?thesis by (rule reachable_invariant [OF B reachable_example_three])
qed

subsection \<open>C6: reset\<close>

text \<open>
  C6. On every reachable state \<open>reset()\<close> returns, and afterwards \<open>fFirstBucket\<close> and
  \<open>fLastBucket\<close> are null and \<open>fNextBucketIndex\<close> is 0, so \<open>begin() == end()\<close>. The
  allocator is as before and the store holds the same buckets as before: no memory is
  released. When an allocator is set, an \<open>append\<close> that follows returns and places its
  value at position 0: \<open>*begin()\<close> is the value and the traversal yields just this
  value.
\<close>

theorem reset_clears:
  fixes d :: 'a
  assumes "0 < B" "reachable B d s"
  shows "\<exists>s'. reset s = Some (Inr s') \<and> fFirstBucket s' = None \<and> fLastBucket s' = None \<and>
           fNextBucketIndex s' = 0 \<and> begin_iter s' = end_iter s' \<and>
           fAllocator s' = fAllocator s \<and> dom (heap s') = dom (heap s) \<and>
           (fAllocator s \<noteq> None \<longrightarrow>
              (\<exists>s''. append B d v s' = Some (Inr s'') \<and>
                     iter_get B (heap s'') (begin_iter s'') = Inr v \<and>
                     collect B s'' = Some (Inr [v])))"
proof -
  from reachable_valid[OF assms(2,1)] obtain bs where v: "valid B s bs"
    and ok: "fAllocator s \<noteq> None \<longrightarrow> alloc_ok s" by (elim exE conjE)
  from reset_valid[OF v] obtain h where
    h: "reset s = Some (Inr (s\<lparr>heap := h, fFirstBucket := None, fLastBucket := None,
                               fNextBucketIndex := 0\<rparr>))" "dom h = dom (heap s)"
    by (elim exE conjE)
  let ?s' = "s\<lparr>heap := h, fFirstBucket := None, fLastBucket := None, fNextBucketIndex := 0\<rparr>"
  have v': "valid B ?s' []" by (rule valid_after_reset[OF v])
  have ap: "fAllocator s \<noteq> None \<longrightarrow>
              (\<exists>s''. append B d v ?s' = Some (Inr s'') \<and>
                     iter_get B (heap s'') (begin_iter s'') = Inr v \<and>
                     collect B s'' = Some (Inr [v]))"
  proof
    assume "fAllocator s \<noteq> None"
    with ok have "alloc_ok s" by simp
    then have ok': "alloc_ok ?s'" by (rule alloc_ok_dom) (simp_all add: h(2))
    from append_valid[OF v' ok', of d v]
    obtain s'' bs'' where s'': "append B d v ?s' = Some (Inr s'')" "valid B s'' bs''"
      "contents B s'' bs'' = contents B ?s' [] @ [v]" "bs'' \<noteq> []"
      by (elim exE conjE)
    from s''(3) contents_Nil[OF v'] have c: "contents B s'' bs'' = [v]" by simp
    with collect_contents[OF s''(2)] have co: "collect B s'' = Some (Inr [v])" by simp
    from c have n: "size_of B s'' bs'' = 1"
      by (metis contents_def length_cells length_Cons list.size(3) One_nat_def)
    from valid_first[OF s''(2)] s''(4) have f: "fFirstBucket s'' = Some (hd bs'')" by simp
    note hs'' = valid_hs[OF s''(2,4)]
    from assms(1) s''(4) have l: "0 < length bs'' * nat B" by simp
    from c n have "cell B (heap s'') bs'' 0 = v"
      by (simp add: contents_def cells_def)
    with iter_get_pos[OF hs'' l] have "iter_get B (heap s'') (begin_iter s'') = Inr v"
      by (simp add: begin_iter_pos[OF assms(1) s''(4) f])
    with s''(1) co show "\<exists>s''. append B d v ?s' = Some (Inr s'') \<and>
                     iter_get B (heap s'') (begin_iter s'') = Inr v \<and>
                     collect B s'' = Some (Inr [v])"
      by (intro exI[of _ s'']) simp
  qed
  show ?thesis
  proof (intro exI[of _ ?s'] conjI)
    show "reset s = Some (Inr ?s')" by (rule h(1))
    show "dom (heap ?s') = dom (heap s)" using h(2) by simp
    show "fAllocator s \<noteq> None \<longrightarrow>
              (\<exists>s''. append B d v ?s' = Some (Inr s'') \<and>
                     iter_get B (heap s'') (begin_iter s'') = Inr v \<and>
                     collect B s'' = Some (Inr [v]))" by (rule ap)
  qed (simp_all add: begin_iter_def end_iter_def)
qed

theorem reset_clears_witness:
  "\<exists>s'. reset example_three = Some (Inr s') \<and> fFirstBucket s' = None \<and> fLastBucket s' = None \<and>
        fNextBucketIndex s' = 0 \<and> begin_iter s' = end_iter s' \<and>
        fAllocator s' = Some 2 \<and> dom (heap s') = {0, 1} \<and>
        (\<exists>s''. append 2 0 9 s' = Some (Inr s'') \<and>
               iter_get 2 (heap s'') (begin_iter s'') = Inr 9 \<and>
               collect 2 s'' = Some (Inr [9]))"
proof -
  have B: "0 < (2::int)" by simp
  have a: "fAllocator example_three = Some 2" "dom (heap example_three) = {0, 1}"
    by (auto simp: example_three_def)
  from reset_clears [OF B reachable_example_three, of 9] show ?thesis
    by (simp add: a)
qed

subsection \<open>C4: growth in isolation\<close>

text \<open>
  C4. \<open>allocateBucket\<close> run with no other thread active (the lock is free), with an
  allocator whose next address \<open>a\<close> is unused storage. If the current bucket is full
  (\<open>fNextBucketIndex = BUCKET_SIZE\<close>) or absent, the call returns after exactly one
  allocation: the allocator has advanced by one bucket and the store has gained the
  bucket at \<open>a\<close>, with \<open>next\<close> null and \<open>prev\<close> the old \<open>fLastBucket\<close>; the old last bucket,
  when there is one, has \<open>next = a\<close> and is otherwise as before, and \<open>fFirstBucket\<close> is as
  before; when there is none, \<open>fFirstBucket\<close> is \<open>a\<close>; \<open>fLastBucket\<close> is \<open>a\<close>,
  \<open>fNextBucketIndex\<close> is 0, the lock is free again and no other bucket has changed. If
  the current bucket is neither full nor absent, the call returns the state it was
  given: no field, no bucket and no allocation has changed. In the first case the
  state \<open>s1\<close> after \<open>link_bucket\<close>, in which the new bucket is linked and published as
  \<open>fLastBucket\<close>, still has the old \<open>fNextBucketIndex\<close>: the index is set to 0 after
  that, and the result differs from \<open>s1\<close> in the index and the released lock only.
\<close>

theorem allocateBucket_isolated:
  fixes d :: 'a
  assumes "fLock s = 0" "fAllocator s = Some a" "heap s a = None"
    "\<forall>l. fLastBucket s = Some l \<longrightarrow> heap s l \<noteq> None"
  shows "(fNextBucketIndex s = B \<or> fLastBucket s = None \<longrightarrow>
           (\<exists>s'. allocateBucket B d s = Some (Inr s') \<and>
              fAllocator s' = Some (Suc a) \<and> dom (heap s') = insert a (dom (heap s)) \<and>
              (\<exists>nb. heap s' a = Some nb \<and> bnext nb = None \<and> bprev nb = fLastBucket s \<and>
                    items nb = replicate (nat B) d) \<and>
              (\<forall>l. fLastBucket s = Some l \<longrightarrow>
                 fFirstBucket s' = fFirstBucket s \<and>
                 (\<exists>lb. heap s l = Some lb \<and> heap s' l = Some (lb\<lparr>bnext := Some a\<rparr>))) \<and>
              (fLastBucket s = None \<longrightarrow> fFirstBucket s' = Some a) \<and>
              fLastBucket s' = Some a \<and> fNextBucketIndex s' = 0 \<and> fLock s' = 0 \<and>
              (\<forall>x. x \<noteq> a \<and> fLastBucket s \<noteq> Some x \<longrightarrow> heap s' x = heap s x) \<and>
              (\<exists>s1. link_bucket B d (s\<lparr>fLock := 1\<rparr>) = Inr s1 \<and> fLastBucket s1 = Some a \<and>
                    fNextBucketIndex s1 = fNextBucketIndex s \<and>
                    s' = s1\<lparr>fNextBucketIndex := 0, fLock := 0\<rparr>))) \<and>
         (\<not> (fNextBucketIndex s = B \<or> fLastBucket s = None) \<longrightarrow>
            allocateBucket B d s = Some (Inr s))"
proof (intro conjI impI)
  assume g: "fNextBucketIndex s = B \<or> fLastBucket s = None"
  note acq = acquire_lock_free[OF assms(1)]
  show "\<exists>s'. allocateBucket B d s = Some (Inr s') \<and>
              fAllocator s' = Some (Suc a) \<and> dom (heap s') = insert a (dom (heap s)) \<and>
              (\<exists>nb. heap s' a = Some nb \<and> bnext nb = None \<and> bprev nb = fLastBucket s \<and>
                    items nb = replicate (nat B) d) \<and>
              (\<forall>l. fLastBucket s = Some l \<longrightarrow>
                 fFirstBucket s' = fFirstBucket s \<and>
                 (\<exists>lb. heap s l = Some lb \<and> heap s' l = Some (lb\<lparr>bnext := Some a\<rparr>))) \<and>
              (fLastBucket s = None \<longrightarrow> fFirstBucket s' = Some a) \<and>
              fLastBucket s' = Some a \<and> fNextBucketIndex s' = 0 \<and> fLock s' = 0 \<and>
              (\<forall>x. x \<noteq> a \<and> fLastBucket s \<noteq> Some x \<longrightarrow> heap s' x = heap s x) \<and>
              (\<exists>s1. link_bucket B d (s\<lparr>fLock := 1\<rparr>) = Inr s1 \<and> fLastBucket s1 = Some a \<and>
                    fNextBucketIndex s1 = fNextBucketIndex s \<and>
                    s' = s1\<lparr>fNextBucketIndex := 0, fLock := 0\<rparr>)"
  proof (cases "fLastBucket s")
    case None
    let ?s' = "s\<lparr>fAllocator := Some (Suc a),
       heap := (heap s)(a \<mapsto> \<lparr>bnext = None, bprev = None, items = replicate (nat B) d,
                              destroyed = False\<rparr>),
       fFirstBucket := Some a, fLastBucket := Some a, fNextBucketIndex := 0\<rparr>"
    have "grow B d s = Inr ?s'"
      using None assms(2) by (simp add: grow_def link_bucket_def newBucket_def)
    then have "allocateBucket B d s = Some (Inr ?s')"
      using assms(1) by (simp add: allocateBucket_def acq grow_lock)
    then have al: "allocateBucket B d s = Some (Inr ?s')" .
    have li: "\<exists>s1. link_bucket B d (s\<lparr>fLock := 1\<rparr>) = Inr s1 \<and> fLastBucket s1 = Some a \<and>
                    fNextBucketIndex s1 = fNextBucketIndex s \<and>
                    ?s' = s1\<lparr>fNextBucketIndex := 0, fLock := 0\<rparr>"
      using None assms(1,2) by (simp add: link_bucket_def newBucket_def)
    show ?thesis
    proof (rule exI[of _ ?s'], intro conjI)
      show "allocateBucket B d s = Some (Inr ?s')" by (rule al)
      show "\<exists>s1. link_bucket B d (s\<lparr>fLock := 1\<rparr>) = Inr s1 \<and> fLastBucket s1 = Some a \<and>
                    fNextBucketIndex s1 = fNextBucketIndex s \<and>
                    ?s' = s1\<lparr>fNextBucketIndex := 0, fLock := 0\<rparr>" by (rule li)
    qed (use None assms(1) in auto)
  next
    case (Some l)
    with assms(4) obtain lb where lb: "heap s l = Some lb" by auto
    with assms(3) have la: "l \<noteq> a" by auto
    from g Some have full: "fNextBucketIndex s = B" by simp
    let ?s' = "s\<lparr>fAllocator := Some (Suc a),
       heap := (heap s)(a \<mapsto> \<lparr>bnext = None, bprev = Some l, items = replicate (nat B) d,
                              destroyed = False\<rparr>,
                       l \<mapsto> lb\<lparr>bnext := Some a\<rparr>),
       fLastBucket := Some a, fNextBucketIndex := 0\<rparr>"
    have "grow B d s = Inr ?s'"
      using Some assms(2) full lb la by (simp add: grow_def link_bucket_def newBucket_def Let_def)
    then have "allocateBucket B d s = Some (Inr ?s')"
      using assms(1) by (simp add: allocateBucket_def acq grow_lock)
    then have al: "allocateBucket B d s = Some (Inr ?s')" .
    have li: "\<exists>s1. link_bucket B d (s\<lparr>fLock := 1\<rparr>) = Inr s1 \<and> fLastBucket s1 = Some a \<and>
                    fNextBucketIndex s1 = fNextBucketIndex s \<and>
                    ?s' = s1\<lparr>fNextBucketIndex := 0, fLock := 0\<rparr>"
      using Some assms(1,2) lb la by (simp add: link_bucket_def newBucket_def Let_def)
    show ?thesis
    proof (rule exI[of _ ?s'], intro conjI)
      show "allocateBucket B d s = Some (Inr ?s')" by (rule al)
      show "\<exists>s1. link_bucket B d (s\<lparr>fLock := 1\<rparr>) = Inr s1 \<and> fLastBucket s1 = Some a \<and>
                    fNextBucketIndex s1 = fNextBucketIndex s \<and>
                    ?s' = s1\<lparr>fNextBucketIndex := 0, fLock := 0\<rparr>" by (rule li)
    qed (use Some assms(1) lb la in auto)
  qed
next
  assume "\<not> (fNextBucketIndex s = B \<or> fLastBucket s = None)"
  then have "grow B d s = Inr s" by (auto simp: grow_def)
  then show "allocateBucket B d s = Some (Inr s)"
    using assms(1) by (simp add: allocateBucket_def acquire_lock_free[OF assms(1)] grow_lock)
qed

theorem allocateBucket_isolated_witness:
  "(\<exists>s'. allocateBucket 2 (0::int) (setAllocator 0 SliceArray_init) = Some (Inr s') \<and>
       fAllocator s' = Some 1 \<and> fFirstBucket s' = Some 0 \<and> fLastBucket s' = Some 0 \<and>
       fNextBucketIndex s' = 0) \<and>
   (\<exists>s'. allocateBucket 2 0 example_full = Some (Inr s') \<and>
       fAllocator s' = Some 2 \<and> fFirstBucket s' = Some 0 \<and> fLastBucket s' = Some 1 \<and>
       fNextBucketIndex s' = 0 \<and>
       (\<exists>nb. heap s' 1 = Some nb \<and> bnext nb = None \<and> bprev nb = Some 0) \<and>
       (\<exists>lb. heap s' 0 = Some lb \<and> bnext lb = Some 1 \<and> items lb = [5, 6])) \<and>
   allocateBucket 2 0 example_three = Some (Inr example_three)"
proof (intro conjI)
  let ?i = "setAllocator 0 SliceArray_init :: int SliceArray"
  have "fLock ?i = 0" "fAllocator ?i = Some 0" "heap ?i 0 = None"
    "\<forall>l. fLastBucket ?i = Some l \<longrightarrow> heap ?i l \<noteq> None"
    by (simp_all add: setAllocator_def SliceArray_init_def)
  from allocateBucket_isolated [OF this, of 2 0]
  show "\<exists>s'. allocateBucket 2 (0::int) (setAllocator 0 SliceArray_init) = Some (Inr s') \<and>
       fAllocator s' = Some 1 \<and> fFirstBucket s' = Some 0 \<and> fLastBucket s' = Some 0 \<and>
       fNextBucketIndex s' = 0"
    by (auto simp: setAllocator_def SliceArray_init_def)
next
  have "fLock example_full = 0" "fAllocator example_full = Some 1" "heap example_full 1 = None"
    "\<forall>l. fLastBucket example_full = Some l \<longrightarrow> heap example_full l \<noteq> None"
    by (simp_all add: example_full_def)
  from allocateBucket_isolated [OF this, of 2 0]
  show "\<exists>s'. allocateBucket 2 0 example_full = Some (Inr s') \<and>
       fAllocator s' = Some 2 \<and> fFirstBucket s' = Some 0 \<and> fLastBucket s' = Some 1 \<and>
       fNextBucketIndex s' = 0 \<and>
       (\<exists>nb. heap s' 1 = Some nb \<and> bnext nb = None \<and> bprev nb = Some 0) \<and>
       (\<exists>lb. heap s' 0 = Some lb \<and> bnext lb = Some 1 \<and> items lb = [5, 6])"
    by (auto simp: example_full_def)
next
  have "fLock example_three = 0" "fAllocator example_three = Some 2" "heap example_three 2 = None"
    "\<forall>l. fLastBucket example_three = Some l \<longrightarrow> heap example_three l \<noteq> None"
    by (simp_all add: example_three_def)
  from allocateBucket_isolated [OF this, of 2 0]
  show "allocateBucket 2 0 example_three = Some (Inr example_three)"
    by (simp add: example_three_def)
qed

subsection \<open>C7: iterator increment\<close>

text \<open>
  C7. \<open>operator++\<close> adds one to the offset; it moves to the next bucket, with offset 0,
  exactly when the new offset is \<open>BUCKET_SIZE\<close> and the bucket has a next bucket, and
  otherwise stays in its bucket with the new offset. In a valid container that is not
  empty, an iterator incremented from \<open>begin()\<close> once per element equals \<open>end()\<close>, and
  does not equal it before. When the last bucket is exactly full, the number of
  elements is a whole number of buckets, \<open>end()\<close> is \<open>(last bucket, BUCKET_SIZE)\<close> and the
  last bucket has no next bucket: the iterator stops there.
\<close>

theorem iterator_increment:
  "(iter_inc B h it = Inr it' \<longrightarrow>
      it' = (if fIndex it + 1 = B \<and> next_of h (fBucket it) \<noteq> None
             then iterator (next_of h (fBucket it)) 0
             else iterator (fBucket it) (fIndex it + 1))) \<and>
   (valid B s bs \<and> bs \<noteq> [] \<longrightarrow>
      iter_advance B (heap s) (begin_iter s) (size_of B s bs) = Inr (end_iter s) \<and>
      (\<forall>k. k < size_of B s bs \<longrightarrow>
         iter_advance B (heap s) (begin_iter s) k = Inr (pos_iter B bs k) \<and>
         pos_iter B bs k \<noteq> end_iter s)) \<and>
   (valid B s bs \<and> bs \<noteq> [] \<and> fNextBucketIndex s = B \<longrightarrow>
      size_of B s bs = length bs * nat B \<and> end_iter s = iterator (Some (last bs)) B \<and>
      next_of (heap s) (Some (last bs)) = None)"
proof (intro conjI impI)
  assume "iter_inc B h it = Inr it'"
  then show "it' = (if fIndex it + 1 = B \<and> next_of h (fBucket it) \<noteq> None
             then iterator (next_of h (fBucket it)) 0
             else iterator (fBucket it) (fIndex it + 1))"
    by (auto simp: iter_inc_def next_of_def Let_def split: sum.splits option.splits if_splits)
next
  assume a: "valid B s bs \<and> bs \<noteq> []"
  then have v: "valid B s bs" and ne: "bs \<noteq> []" by simp_all
  from v have B: "0 < B" by (simp add: valid_def)
  from valid_first[OF v] ne have f: "fFirstBucket s = Some (hd bs)" by simp
  note h = valid_hs[OF v ne]
  note bg = begin_iter_pos[OF B ne f]
  note en = end_iter_pos[OF v ne]
  note le = size_of_le[OF v ne]
  from iter_advance_pos[OF h, of 0 "size_of B s bs"] le
  show "iter_advance B (heap s) (begin_iter s) (size_of B s bs) = Inr (end_iter s)"
    by (simp add: bg en)
  show "\<forall>k. k < size_of B s bs \<longrightarrow>
         iter_advance B (heap s) (begin_iter s) k = Inr (pos_iter B bs k) \<and>
         pos_iter B bs k \<noteq> end_iter s"
  proof (intro allI impI conjI)
    fix k assume k: "k < size_of B s bs"
    with le have kl: "0 + k \<le> length bs * nat B" by simp
    from iter_advance_pos[OF h kl]
    show "iter_advance B (heap s) (begin_iter s) k = Inr (pos_iter B bs k)" by (simp add: bg)
    from pos_iter_inj[OF h, of k "size_of B s bs"] k le
    show "pos_iter B bs k \<noteq> end_iter s" by (auto simp: en)
  qed
next
  assume a: "valid B s bs \<and> bs \<noteq> [] \<and> fNextBucketIndex s = B"
  then have v: "valid B s bs" and ne: "bs \<noteq> []" and full: "fNextBucketIndex s = B" by simp_all
  from ne have L: "Suc (length bs - 1) = length bs" by simp
  have "size_of B s bs = (length bs - 1) * nat B + nat B" using full by (simp add: size_of_def)
  also have "\<dots> = Suc (length bs - 1) * nat B" by simp
  finally show "size_of B s bs = length bs * nat B" by (simp only: L)
  from v ne full show "end_iter s = iterator (Some (last bs)) B"
    by (simp add: end_iter_def valid_def)
  from ne have k: "length bs - 1 < length bs" by simp
  from hs_bucket[OF valid_hs[OF v ne] k] obtain b where
    b: "heap s (bs ! (length bs - 1)) = Some b"
       "bnext b = (if Suc (length bs - 1) < length bs then Some (bs ! Suc (length bs - 1)) else None)"
    by blast
  from b(2) L have "bnext b = None" by simp
  with b(1) ne show "next_of (heap s) (Some (last bs)) = None"
    by (simp add: next_of_def bucket_at_def last_conv_nth)
qed

theorem iterator_increment_witness:
  "iter_inc 2 (heap example_three) (iterator (Some 0) 1) = Inr (iterator (Some 1) 0) \<and>
   iter_inc 2 (heap example_full) (iterator (Some 0) 1) = Inr (iterator (Some 0) 2) \<and>
   iter_advance 2 (heap example_full) (begin_iter example_full) 2 = Inr (end_iter example_full) \<and>
   end_iter example_full = iterator (Some 0) 2 \<and>
   next_of (heap example_full) (Some 0) = None"
proof -
  note th = iterator_increment [where B = 2 and s = example_full and bs = "[0]" and
      h = "heap example_full" and it = "iterator (Some 0) 1" and it' = "iterator (Some 0) 2"]
  have sz: "size_of 2 example_full [0] = 2" by (simp add: size_of_def example_full_def)
  have 1: "iter_inc 2 (heap example_three) (iterator (Some 0) 1) = Inr (iterator (Some 1) 0)"
    by (simp add: iter_inc_def bucket_at_def example_three_def)
  have 2: "iter_inc 2 (heap example_full) (iterator (Some 0) 1) = Inr (iterator (Some 0) 2)"
    by (simp add: iter_inc_def bucket_at_def example_full_def)
  from th valid_example_full
  have 3: "iter_advance 2 (heap example_full) (begin_iter example_full) 2 =
           Inr (end_iter example_full)"
    by (simp add: sz)
  have full: "fNextBucketIndex example_full = 2" by (simp add: example_full_def)
  from th valid_example_full full
  have 4: "end_iter example_full = iterator (Some 0) 2 \<and> next_of (heap example_full) (Some 0) = None"
    by simp
  from 1 2 3 4 show ?thesis by (intro conjI) simp_all
qed

subsection \<open>C3: concurrent appends\<close>

lemmas step_defs =
  thread_step_def allocateBucket_def acquire_lock.simps grow_def link_bucket_def newBucket_def must_grow_def
  cas_index_def store_slot_def store_item_def enter_append_def Let_def

text \<open>
  A thread that is not interleaved with another one does what \<open>append\<close> does. When the
  bucket has room, five steps take it to \<open>Done\<close> with the state \<open>append\<close> returns; when
  it must grow, four steps take it back to the head of the loop in the state
  \<open>allocateBucket\<close> returns, where \<open>append\<close> continues as well.
\<close>

lemma thread_alone_room:
  fixes d :: 'a
  assumes "\<not> must_grow B (fNextBucketIndex s) (fLastBucket s)"
  shows "append B d v s =
           Some (store_slot B (fLastBucket s) (fNextBucketIndex s) v
                   (s\<lparr>fNextBucketIndex := fNextBucketIndex s + 1\<rparr>))"
    and "run B d [0, 0, 0, 0, 0] [enter_append v] s =
           (case store_slot B (fLastBucket s) (fNextBucketIndex s) v
                   (s\<lparr>fNextBucketIndex := fNextBucketIndex s + 1\<rparr>) of
              Inl e \<Rightarrow> Some (Inl e)
            | Inr s1 \<Rightarrow>
                Some (Inr ([\<lparr>pc = Done, index = fNextBucketIndex s, bucket = fLastBucket s,
                             copyFrom = v\<rparr>], s1)))"
proof -
  show "append B d v s =
           Some (store_slot B (fLastBucket s) (fNextBucketIndex s) v
                   (s\<lparr>fNextBucketIndex := fNextBucketIndex s + 1\<rparr>))"
    using assms by (subst append.simps) (simp add: cas_index_def Let_def)
  show "run B d [0, 0, 0, 0, 0] [enter_append v] s =
           (case store_slot B (fLastBucket s) (fNextBucketIndex s) v
                   (s\<lparr>fNextBucketIndex := fNextBucketIndex s + 1\<rparr>) of
              Inl e \<Rightarrow> Some (Inl e)
            | Inr s1 \<Rightarrow>
                Some (Inr ([\<lparr>pc = Done, index = fNextBucketIndex s, bucket = fLastBucket s,
                             copyFrom = v\<rparr>], s1)))"
    using assms
    by (simp add: thread_step_def enter_append_def cas_index_def store_slot_def
        split: sum.splits)
qed

lemma thread_alone_grow:
  fixes d :: 'a
  assumes "must_grow B (fNextBucketIndex s) (fLastBucket s)"
    "allocateBucket B d s = Some (Inr s1)"
  shows "append B d v s = append B d v s1"
    and "run B d [0, 0, 0, 0] [enter_append v] s =
           Some (Inr ([\<lparr>pc = ReadIndex, index = fNextBucketIndex s, bucket = fLastBucket s,
                        copyFrom = v\<rparr>], s1))"
proof -
  show "append B d v s = append B d v s1" using assms by (rule append_grow_step)
  show "run B d [0, 0, 0, 0] [enter_append v] s =
           Some (Inr ([\<lparr>pc = ReadIndex, index = fNextBucketIndex s, bucket = fLastBucket s,
                        copyFrom = v\<rparr>], s1))"
    using assms by (simp add: thread_step_def enter_append_def)
qed

text \<open>
  The same four threads, each running its \<open>append\<close> to the end before the next one
  starts: the container then reads 1, 2, 3, 4.
\<close>

lemma run_one_after_another:
  "(case run 2 (0::int)
          [0, 0, 0, 0, 0, 0, 0, 0, 0, 1, 1, 1, 1, 1, 2, 2, 2, 2, 2, 2, 2, 2, 2, 3, 3, 3, 3, 3]
          [enter_append 1, enter_append 2, enter_append 3, enter_append 4]
          (setAllocator 0 SliceArray_init) of
      Some (Inr (ts, s)) \<Rightarrow>
        map pc ts = [Done, Done, Done, Done] \<and> collect 2 s = Some (Inr [1, 2, 3, 4])
    | _ \<Rightarrow> False)"
  by (simp add: step_defs setAllocator_def SliceArray_init_def
      collect_def collect_from.simps begin_iter_def end_iter_def iter_get_def load_item_def
      iter_inc_def bucket_at_def)

text \<open>
  C3 states that \<open>N\<close> threads that each append once leave exactly \<open>N\<close> elements, each
  thread's value once, and that no slot is written by two appends. The code does not
  ensure it. With \<open>BUCKET_SIZE = 2\<close> and four threads appending 1, 2, 3 and 4, in the
  schedule \<open>stale_index_schedule\<close> every thread completes its \<open>append\<close>, and the container
  then reads 2, 1, 4, 0: the value 3 of thread 2 is gone, overwritten by thread 0 in
  slot 1 of the first bucket, and slot 1 of the second bucket was reserved by thread
  0's compare-and-swap but never written (it holds the default 0). Thread 0 read index 1
  and the first bucket; when it resumed, \<open>fNextBucketIndex\<close> was 1 again, now counting
  the second bucket, and the compare-and-swap, which looks at the index alone, let it
  through.
\<close>

theorem append_stale_index_race:
  "(case run 2 (0::int) stale_index_schedule
          [enter_append 1, enter_append 2, enter_append 3, enter_append 4]
          (setAllocator 0 SliceArray_init) of
      Some (Inr (ts, s)) \<Rightarrow>
        map pc ts = [Done, Done, Done, Done] \<and> collect 2 s = Some (Inr [2, 1, 4, 0])
    | _ \<Rightarrow> False)"
  by (simp add: stale_index_schedule_def step_defs setAllocator_def SliceArray_init_def
      collect_def collect_from.simps begin_iter_def end_iter_def iter_get_def load_item_def
      iter_inc_def bucket_at_def)

subsection \<open>C9: compareElements\<close>

text \<open>
  C9, as the specification states it: \<open>compareElements\<close> is a three-way comparison, with
  a result for equal elements that differs from the results for "greater" and "less".
  This fails: for the equal integers 3 and 3 the result is negative, the same value as
  for 2 and 3.
\<close>

theorem compareElements_equal_counterexample:
  "compareElements (gt_key id) (3::int) 3 < 0 \<and>
   compareElements (gt_key id) (3::int) 3 = compareElements (gt_key id) (2::int) 3"
  by (simp add: compareElements_def gt_key_def)

text \<open>
  C9, amended: \<open>compareElements\<close> is two-valued. It returns 1 when the first element is
  greater than the second and -1 otherwise, that is, both when the first is less and
  when neither is greater.
\<close>

theorem compareElements_two_valued:
  "(key b < key a \<longrightarrow> compareElements (gt_key key) a b = 1) \<and>
   (key a < key b \<longrightarrow> compareElements (gt_key key) a b = - 1) \<and>
   (key a = key b \<longrightarrow> compareElements (gt_key key) a b = - 1)"
  by (auto simp: compareElements_def gt_key_def)

theorem compareElements_two_valued_witness:
  "compareElements (gt_key id) (5::int) 3 = 1 \<and>
   compareElements (gt_key id) (2::int) 3 = - 1 \<and>
   compareElements (gt_key id) (3::int) 3 = - 1"
  using compareElements_two_valued [where key = id and a = "5::int" and b = 3]
        compareElements_two_valued [where key = id and a = "2::int" and b = 3]
        compareElements_two_valued [where key = id and a = "3::int" and b = 3]
  by simp

end
